theory Spec2Isabelle
  imports Complex_Main
begin

section \<open>JavaScript numbers\<close>

text \<open>
  The helpers compute on JavaScript numbers. The model is idealised: a finite number is a
  real (no rounding, no overflow, zero has no sign), and the three non-finite values that
  a division by zero produces from finite operands are kept as values of their own, with
  the arithmetic of IEEE 754 on them. Integral quantities (grid sizes, loop counters,
  vertex indices) are \<open>int\<close>.
\<close>

datatype jsnum = Num real | PInf | NInf | NaN

text \<open>The infinity of the sign of \<open>s\<close>; \<open>NaN\<close> when \<open>s\<close> is zero.\<close>

definition jinf :: "real \<Rightarrow> jsnum" where
  "jinf s = (if s = 0 then NaN else if 0 < s then PInf else NInf)"

fun jneg :: "jsnum \<Rightarrow> jsnum" where
  "jneg (Num a) = Num (- a)"
| "jneg PInf = NInf"
| "jneg NInf = PInf"
| "jneg NaN = NaN"

fun jadd :: "jsnum \<Rightarrow> jsnum \<Rightarrow> jsnum" where
  "jadd (Num a) (Num b) = Num (a + b)"
| "jadd NaN _ = NaN"
| "jadd _ NaN = NaN"
| "jadd PInf NInf = NaN"
| "jadd NInf PInf = NaN"
| "jadd PInf _ = PInf"
| "jadd _ PInf = PInf"
| "jadd NInf _ = NInf"
| "jadd _ NInf = NInf"

definition jsub :: "jsnum \<Rightarrow> jsnum \<Rightarrow> jsnum" where
  "jsub a b = jadd a (jneg b)"

fun jmul :: "jsnum \<Rightarrow> jsnum \<Rightarrow> jsnum" where
  "jmul (Num a) (Num b) = Num (a * b)"
| "jmul NaN _ = NaN"
| "jmul _ NaN = NaN"
| "jmul PInf (Num b) = jinf b"
| "jmul NInf (Num b) = jinf (- b)"
| "jmul (Num a) PInf = jinf a"
| "jmul (Num a) NInf = jinf (- a)"
| "jmul PInf PInf = PInf"
| "jmul PInf NInf = NInf"
| "jmul NInf PInf = NInf"
| "jmul NInf NInf = PInf"

text \<open>\<open>a / b\<close>: a finite number over zero is an infinity, and \<open>0 / 0\<close> is \<open>NaN\<close>.\<close>

fun jdiv :: "jsnum \<Rightarrow> jsnum \<Rightarrow> jsnum" where
  "jdiv (Num a) (Num b) = (if b = 0 then jinf a else Num (a / b))"
| "jdiv NaN _ = NaN"
| "jdiv _ NaN = NaN"
| "jdiv (Num a) PInf = Num 0"
| "jdiv (Num a) NInf = Num 0"
| "jdiv PInf (Num b) = (if 0 \<le> b then PInf else NInf)"
| "jdiv NInf (Num b) = (if 0 \<le> b then NInf else PInf)"
| "jdiv _ _ = NaN"

text \<open>\<open>x ** 2\<close>\<close>

definition jpow2 :: "jsnum \<Rightarrow> jsnum" where
  "jpow2 x = jmul x x"

text \<open>\<open>Math.abs\<close>, \<open>Math.sqrt\<close>, \<open>Math.floor\<close>, \<open>Math.sign\<close>\<close>

fun jabs :: "jsnum \<Rightarrow> jsnum" where
  "jabs (Num a) = Num \<bar>a\<bar>"
| "jabs PInf = PInf"
| "jabs NInf = PInf"
| "jabs NaN = NaN"

fun jsqrt :: "jsnum \<Rightarrow> jsnum" where
  "jsqrt (Num a) = (if a < 0 then NaN else Num (sqrt a))"
| "jsqrt PInf = PInf"
| "jsqrt NInf = NaN"
| "jsqrt NaN = NaN"

fun jfloor :: "jsnum \<Rightarrow> jsnum" where
  "jfloor (Num a) = Num (of_int \<lfloor>a\<rfloor>)"
| "jfloor PInf = PInf"
| "jfloor NInf = NInf"
| "jfloor NaN = NaN"

fun jsign :: "jsnum \<Rightarrow> jsnum" where
  "jsign (Num a) = Num (sgn a)"
| "jsign PInf = Num 1"
| "jsign NInf = Num (- 1)"
| "jsign NaN = NaN"

text \<open>\<open>a % b\<close>: the remainder of the truncated division, \<open>NaN\<close> for a zero divisor or
  an infinite dividend.\<close>

fun jmod :: "jsnum \<Rightarrow> jsnum \<Rightarrow> jsnum" where
  "jmod (Num a) (Num b) =
     (if b = 0 then NaN
      else Num (a - b * of_int (if 0 \<le> a / b then \<lfloor>a / b\<rfloor> else \<lceil>a / b\<rceil>)))"
| "jmod (Num a) PInf = Num a"
| "jmod (Num a) NInf = Num a"
| "jmod _ _ = NaN"

text \<open>\<open>a < b\<close> and \<open>a === b\<close>: every comparison with \<open>NaN\<close> is false.\<close>

fun jlt :: "jsnum \<Rightarrow> jsnum \<Rightarrow> bool" where
  "jlt (Num a) (Num b) = (a < b)"
| "jlt NaN _ = False"
| "jlt _ NaN = False"
| "jlt _ NInf = False"
| "jlt PInf _ = False"
| "jlt NInf _ = True"
| "jlt _ PInf = True"

fun jeq :: "jsnum \<Rightarrow> jsnum \<Rightarrow> bool" where
  "jeq (Num a) (Num b) = (a = b)"
| "jeq PInf PInf = True"
| "jeq NInf NInf = True"
| "jeq _ _ = False"

abbreviation jint :: "int \<Rightarrow> jsnum" where
  "jint i \<equiv> Num (of_int i)"

section \<open>Octahedral geometry builder (utils/octahedralHelper.js)\<close>

text \<open>
  A flat coordinate array \<open>[x0, y0, z0, x1, y1, z1, ...]\<close> of the source is a list of
  triples: point \<open>i\<close> of the list stands for the entries \<open>3i\<close>, \<open>3i + 1\<close>, \<open>3i + 2\<close>.
\<close>

type_synonym vec3 = "jsnum \<times> jsnum \<times> jsnum"

definition HEMI :: int where "HEMI = 0"
definition FULL :: int where "FULL = 1"

text \<open>\<open>createGrid(xCells, yCells)\<close> with the defaults \<open>width = 1\<close>, \<open>height = 1\<close>,
  \<open>useCenter = true\<close>. Both loops run to their bound inclusive.\<close>

definition createGrid :: "int \<Rightarrow> int \<Rightarrow> vec3 list" where
  "createGrid xCells yCells =
     (let width = Num 1; height = Num 1;
          xInc = jdiv width (jint xCells);
          yInc = jdiv height (jint yCells);
          ox = jmul (jneg width) (Num (1/2));
          oz = jmul (jneg height) (Num (1/2))
      in concat (map (\<lambda>yi.
           let z = jmul (jint yi) yInc
           in map (\<lambda>xi.
                let x = jmul (jint xi) xInc
                in (jadd x ox, Num 0, jadd z oz)) [0..xCells]) [0..yCells]))"

text \<open>\<open>toSphereNormal\<close>: every point divided by its length.\<close>

definition toSphereNormal1 :: "vec3 \<Rightarrow> vec3" where
  "toSphereNormal1 p =
     (case p of (x, y, z) \<Rightarrow>
        let m = jsqrt (jadd (jadd (jpow2 x) (jpow2 y)) (jpow2 z))
        in (jdiv x m, jdiv y m, jdiv z m))"

definition toSphereNormal :: "vec3 list \<Rightarrow> vec3 list" where
  "toSphereNormal ary = map toSphereNormal1 ary"

text \<open>The diagonal-alternation key of the cell \<open>(x, y)\<close> of \<open>octPlaneIndices\<close>:
  \<open>(Math.floor(x / xHalf) + Math.floor(y / yHalf)) % 2\<close>.\<close>

definition octAlt :: "int \<Rightarrow> int \<Rightarrow> int \<Rightarrow> int \<Rightarrow> jsnum" where
  "octAlt xCells yCells x y =
     (let xHalf = jfloor (jmul (jint xCells) (Num (1/2)));
          yHalf = jfloor (jmul (jint yCells) (Num (1/2)))
      in jmod (jadd (jfloor (jdiv (jint x) xHalf)) (jfloor (jdiv (jint y) yHalf))) (Num 2))"

text \<open>The six indices that one cell pushes.\<close>

definition octCellIndices :: "int \<Rightarrow> int \<Rightarrow> int \<Rightarrow> int \<Rightarrow> int \<Rightarrow> int list" where
  "octCellIndices isFull xCells yCells x y =
     (let xLen = xCells + 1;
          r0 = xLen * y;
          r1 = xLen * (y + 1);
          a = r0 + x;
          b = r1 + x;
          c = r1 + x + 1;
          d = r0 + x + 1;
          alt = octAlt xCells yCells x y
      in if jeq alt (jint isFull) then [a, b, c, c, d, a] else [d, a, b, b, c, d])"

definition octPlaneIndices :: "int \<Rightarrow> int \<Rightarrow> int \<Rightarrow> int list" where
  "octPlaneIndices isFull xCells yCells =
     concat (map (\<lambda>y. concat (map (\<lambda>x. octCellIndices isFull xCells yCells x y)
                                   [0..xCells - 1])) [0..yCells - 1])"

text \<open>\<open>octHemi\<close> and \<open>octFull\<close> overwrite each point of the array by its fold; a point is
  read before it is written and no other point is touched.\<close>

definition octHemi1 :: "vec3 \<Rightarrow> vec3" where
  "octHemi1 p =
     (case p of (a0, a1, a2) \<Rightarrow>
        let radius = Num (1/2);
            ox = jadd a0 (Num (1/2));
            oy = jadd a2 (Num (1/2));
            x = jsub ox oy;
            z = jadd (jadd (Num (- 1)) ox) oy;
            y = jsub (jsub (Num 1) (jabs x)) (jabs z);
            m = jsqrt (jadd (jadd (jpow2 x) (jpow2 y)) (jpow2 z))
        in (jmul (jdiv x m) radius, jmul (jdiv y m) radius, jmul (jdiv z m) radius))"

definition octHemi :: "vec3 list \<Rightarrow> vec3 list" where
  "octHemi ary = map octHemi1 ary"

definition octFull1 :: "vec3 \<Rightarrow> vec3" where
  "octFull1 p =
     (case p of (a0, a1, a2) \<Rightarrow>
        let radius = Num (1/2);
            u = jmul a0 (Num 2);
            v = jmul a2 (Num 2);
            y0 = jsub (jsub (Num 1) (jabs u)) (jabs v);
            (x, y, z) =
              (if jlt y0 (Num 0)
               then let x' = jmul (jsign u) (jsub (Num 1) (jabs v));
                        z' = jmul (jsign v) (jsub (Num 1) (jabs u))
                    in (x', jsub (jsub (Num 1) (jabs x')) (jabs z'), z')
               else (u, y0, v));
            m = jsqrt (jadd (jadd (jpow2 x) (jpow2 y)) (jpow2 z))
        in (jmul (jdiv x m) radius, jmul (jdiv y m) radius, jmul (jdiv z m) radius))"

definition octFull :: "vec3 list \<Rightarrow> vec3 list" where
  "octFull ary = map octFull1 ary"

datatype error = UnknownOctahedronType int

record octmesh =
  pntPlane :: "vec3 list"
  pntOct :: "vec3 list"
  indices :: "int list"
  normals :: "vec3 list"

text \<open>\<open>buildOctahedralMesh\<close>. The grid and the index list are computed before the
  \<open>switch\<close> on the type; its \<open>default\<close> branch throws. The geometry object of the
  result holds \<open>pntOct\<close>, the normals and the index list.\<close>

definition buildOctahedralMesh :: "int \<Rightarrow> int \<Rightarrow> error + octmesh" where
  "buildOctahedralMesh octType gridSize =
     (let plane = createGrid gridSize gridSize;
          idx = octPlaneIndices octType gridSize gridSize
      in if octType = HEMI then
           Inr \<lparr>pntPlane = plane, pntOct = octHemi plane, indices = idx,
                normals = toSphereNormal (octHemi plane)\<rparr>
         else if octType = FULL then
           Inr \<lparr>pntPlane = plane, pntOct = octFull plane, indices = idx,
                normals = toSphereNormal (octFull plane)\<rparr>
         else Inl (UnknownOctahedronType octType))"

section \<open>Direction sampling (utils/octahedralImpostorMath.js)\<close>

text \<open>
  A view direction is a vector of finite numbers, so the sampling functions compute on
  reals: none of their divisions has a zero divisor (the encoder adds \<open>1e-9\<close> to a
  non-negative sum, the barycentric computation divides only behind its guards).
\<close>

type_synonym dir3 = "real \<times> real \<times> real"
type_synonym uv2 = "real \<times> real"

definition encodeDirectionToOctUV :: "dir3 \<Rightarrow> uv2" where
  "encodeDirectionToOctUV direction =
     (case direction of (x, y, z) \<Rightarrow>
        let absX = \<bar>x\<bar>;
            absY = \<bar>y\<bar>;
            absZ = \<bar>z\<bar>;
            invSum = 1 / (absX + absY + absZ + 1 / 10 ^ 9);
            nx = x * invSum;
            ny = y * invSum;
            nz = z * invSum;
            (nx', nz') =
              (if ny < 0
               then let signX = (if 0 \<le> nx then 1 else - 1);
                        signZ = (if 0 \<le> nz then 1 else - 1);
                        newX = (1 - \<bar>nz\<bar>) * signX;
                        newZ = (1 - \<bar>nx\<bar>) * signZ
                    in (newX, newZ)
               else (nx, nz))
        in (nx' * (1/2) + 1/2, nz' * (1/2) + 1/2))"

text \<open>\<open>computeBarycentric2D\<close>; the result is what is written into \<open>target\<close>.\<close>

definition computeBarycentric2D :: "real \<Rightarrow> real \<Rightarrow> uv2 \<times> uv2 \<times> uv2 \<Rightarrow> real \<times> real \<times> real" where
  "computeBarycentric2D px py triangleUV =
     (case triangleUV of ((ax, ay), (bx, by), (cx, cy)) \<Rightarrow>
        let v0x = bx - ax;
            v0y = by - ay;
            v1x = cx - ax;
            v1y = cy - ay;
            v2x = px - ax;
            v2y = py - ay;
            denom = v0x * v1y - v1x * v0y
        in if \<bar>denom\<bar> < 1 / 10 ^ 9 then (1/3, 1/3, 1/3)
           else
             let invDenom = 1 / denom;
                 v = (v2x * v1y - v1x * v2y) * invDenom;
                 w = (v0x * v2y - v2x * v0y) * invDenom;
                 u = 1 - v - w;
                 clampedU = max u 0;
                 clampedV = max v 0;
                 clampedW = max w 0;
                 sum = clampedU + clampedV + clampedW
             in if sum \<le> 0 then (1/3, 1/3, 1/3)
                else (clampedU / sum, clampedV / sum, clampedW / sum))"

text \<open>Reading an array at an index: out of range the value is \<open>undefined\<close> (\<open>None\<close>).
  Writing an array element: past the end the array grows, the skipped slots stay empty;
  a negative index does not touch the elements.\<close>

definition aget :: "'a list \<Rightarrow> int \<Rightarrow> 'a option" where
  "aget xs i = (if 0 \<le> i \<and> nat i < length xs then Some (xs ! nat i) else None)"

definition aset :: "'a option list \<Rightarrow> int \<Rightarrow> 'a \<Rightarrow> 'a option list" where
  "aset xs i v =
     (if i < 0 then xs
      else if nat i < length xs then xs[nat i := Some v]
      else xs @ replicate (nat i - length xs) None @ [Some v])"

type_synonym tri3 = "int option \<times> int option \<times> int option"

record triangle =
  tri_indices :: tri3
  tri_uv :: "uv2 \<times> uv2 \<times> uv2"

record cell =
  isBackslash :: bool
  triangles :: "triangle \<times> triangle"

record samplingCache =
  cache_gridSize :: int
  cache_octType :: int
  cells :: "cell option list"

text \<open>The cell that one iteration of the loops of \<open>buildSamplingCache\<close> builds from the
  six entries of the index array at \<open>cursor\<close>. A subtraction with \<open>undefined\<close> is
  \<open>NaN\<close>, which equals nothing.\<close>

definition cacheCell :: "int list \<Rightarrow> int \<Rightarrow> int \<Rightarrow> cell" where
  "cacheCell indexArray stride cursor =
     (let tri1 = (aget indexArray cursor, aget indexArray (cursor + 1),
                  aget indexArray (cursor + 2));
          tri2 = (aget indexArray (cursor + 3), aget indexArray (cursor + 4),
                  aget indexArray (cursor + 5));
          backslash =
            (case tri1 of
               (Some t0, Some t1, Some t2) \<Rightarrow> t1 - t0 = stride \<and> t2 - t1 = 1
             | _ \<Rightarrow> False);
          tris =
            (if backslash
             then (\<lparr>tri_indices = tri1, tri_uv = ((0, 0), (0, 1), (1, 1))\<rparr>,
                   \<lparr>tri_indices = tri2, tri_uv = ((1, 1), (1, 0), (0, 0))\<rparr>)
             else (\<lparr>tri_indices = tri1, tri_uv = ((1, 0), (0, 0), (0, 1))\<rparr>,
                   \<lparr>tri_indices = tri2, tri_uv = ((0, 1), (1, 1), (1, 0))\<rparr>))
      in \<lparr>isBackslash = backslash, triangles = tris\<rparr>)"

text \<open>The two loops over \<open>row\<close> and \<open>col\<close>, on the state \<open>(cursor, cells)\<close>, started with
  \<open>cursor = 0\<close> and \<open>new Array(gridSize * gridSize)\<close>.\<close>

definition cacheStep :: "int list \<Rightarrow> int \<Rightarrow> int \<Rightarrow> int \<Rightarrow> int \<times> cell option list
    \<Rightarrow> int \<times> cell option list" where
  "cacheStep indexArray gridSize row col st =
     (case st of (cursor, cs) \<Rightarrow>
        (cursor + 6, aset cs (row * gridSize + col) (cacheCell indexArray (gridSize + 1) cursor)))"

definition cacheLoop :: "int list \<Rightarrow> int \<Rightarrow> int \<times> cell option list" where
  "cacheLoop indexArray gridSize =
     fold (\<lambda>row. fold (\<lambda>col. cacheStep indexArray gridSize row col) [0..gridSize - 1])
          [0..gridSize - 1]
          (0, replicate (nat (gridSize * gridSize)) None)"

text \<open>\<open>buildSamplingCache\<close>. The memo table in front of it returns, for a key seen
  before, the value this function computes, so it is left out; an error of the mesh
  builder propagates. The geometry always has an index attribute, whose typed array holds
  the index list of the mesh as it is, so the branch that stores \<open>null\<close> is not taken.\<close>

definition buildSamplingCache :: "int \<Rightarrow> int \<Rightarrow> error + samplingCache" where
  "buildSamplingCache octType gridSize =
     (case buildOctahedralMesh octType gridSize of
        Inl e \<Rightarrow> Inl e
      | Inr octahedralData \<Rightarrow>
          Inr \<lparr>cache_gridSize = gridSize, cache_octType = octType,
               cells = snd (cacheLoop (indices octahedralData) gridSize)\<rparr>)"

text \<open>\<open>sampleOctahedralDirection\<close>: \<open>None\<close> is the result \<open>false\<close>, with both targets
  untouched; \<open>Some (i, w)\<close> is the result \<open>true\<close> with \<open>i\<close> written to \<open>indicesTarget\<close> and
  \<open>w\<close> to \<open>weightsTarget\<close>.\<close>

definition sampleOctahedralDirection ::
    "dir3 \<Rightarrow> samplingCache option \<Rightarrow> (tri3 \<times> (real \<times> real \<times> real)) option" where
  "sampleOctahedralDirection direction cache =
     (case cache of
        None \<Rightarrow> None
      | Some c \<Rightarrow>
          let (u, v) = encodeDirectionToOctUV direction;
              g = cache_gridSize c;
              scaledU = u * of_int g;
              scaledV = v * of_int g;
              col = min (max \<lfloor>scaledU\<rfloor> 0) (g - 1);
              row = min (max \<lfloor>scaledV\<rfloor> 0) (g - 1);
              localU = min (max (scaledU - of_int col) 0) (999999 / 1000000);
              localV = min (max (scaledV - of_int row) 0) (999999 / 1000000)
          in case aget (cells c) (row * g + col) of
               Some (Some cl) \<Rightarrow>
                 let tr = (if isBackslash cl \<and> localU > localV then snd (triangles cl)
                           else if \<not> isBackslash cl \<and> localU + localV > 1
                           then snd (triangles cl)
                           else fst (triangles cl))
                 in Some (tri_indices tr, computeBarycentric2D localU localV (tri_uv tr))
             | _ \<Rightarrow> None)"

section \<open>Per-frame direction update (OctahedralImpostor.jsx)\<close>

text \<open>The state that the frame callback of one impostor reads and writes: the three refs
  and the values of the two uniforms of its material.\<close>

record impostor =
  lastDirection :: "dir3 option"
  faceIndices :: tri3
  faceWeights :: "real \<times> real \<times> real"
  faceIndicesUniform :: tri3
  faceWeightsUniform :: "real \<times> real \<times> real"

definition dot3 :: "dir3 \<Rightarrow> dir3 \<Rightarrow> real" where
  "dot3 a b = (case a of (ax, ay, az) \<Rightarrow> case b of (bx, by, bz) \<Rightarrow> ax * bx + ay * by + az * bz)"

definition sub3 :: "dir3 \<Rightarrow> dir3 \<Rightarrow> dir3" where
  "sub3 a b = (case a of (ax, ay, az) \<Rightarrow> case b of (bx, by, bz) \<Rightarrow> (ax - bx, ay - by, az - bz))"

text \<open>\<open>Vector3.normalize\<close> of three.js: the vector times \<open>1 / (length || 1)\<close>.\<close>

definition normalize3 :: "dir3 \<Rightarrow> dir3" where
  "normalize3 a =
     (case a of (x, y, z) \<Rightarrow>
        let len = sqrt (x * x + y * y + z * z);
            scalar = 1 / (if len = 0 then 1 else len)
        in (x * scalar, y * scalar, z * scalar))"

text \<open>\<open>directionThresholdDot\<close>: the cosine of the threshold clamped to \<open>[0, \<pi>]\<close>.\<close>

definition directionThresholdDot :: "real \<Rightarrow> real" where
  "directionThresholdDot directionThresholdRadians =
     (let clamped = min (max directionThresholdRadians 0) pi in cos clamped)"

text \<open>The part of the frame callback from the hysteresis test on, for the view direction
  \<open>viewDir\<close>.\<close>

definition updateDirection :: "real \<Rightarrow> samplingCache option \<Rightarrow> dir3 \<Rightarrow> impostor \<Rightarrow> impostor" where
  "updateDirection directionThresholdRadians cache viewDir st =
     (if (case lastDirection st of
            Some l \<Rightarrow> directionThresholdDot directionThresholdRadians \<le> dot3 l viewDir
          | None \<Rightarrow> False)
      then st
      else case sampleOctahedralDirection viewDir cache of
             None \<Rightarrow> st
           | Some (i, w) \<Rightarrow>
               st\<lparr>faceIndices := i, faceWeights := w,
                  faceIndicesUniform := i, faceWeightsUniform := w,
                  lastDirection := Some viewDir\<rparr>)"

text \<open>The frame callback. \<open>mounted\<close> says that the billboard, the camera and the material
  exist; without them, or without a cache, the callback returns at once.\<close>

definition frame :: "real \<Rightarrow> bool \<Rightarrow> samplingCache option \<Rightarrow> dir3 \<Rightarrow> dir3 \<Rightarrow> impostor \<Rightarrow> impostor" where
  "frame directionThresholdRadians mounted cache cameraPosition targetCenter st =
     (if \<not> mounted \<or> cache = None then st
      else updateDirection directionThresholdRadians cache
             (normalize3 (sub3 cameraPosition targetCenter)) st)"

text \<open>The angle between two unit vectors.\<close>

definition angleBetween :: "dir3 \<Rightarrow> dir3 \<Rightarrow> real" where
  "angleBetween a b = arccos (dot3 a b)"

definition unit3 :: "dir3 \<Rightarrow> bool" where
  "unit3 a = (dot3 a a = 1)"

section \<open>Atlas baking (hooks/useOctahedralAtlas.js)\<close>

text \<open>\<open>Vector3.normalize\<close> on the numbers of the point array: a length that is \<open>0\<close> or
  \<open>NaN\<close> is replaced by \<open>1\<close>.\<close>

definition vnormalize :: "vec3 \<Rightarrow> vec3" where
  "vnormalize p =
     (case p of (x, y, z) \<Rightarrow>
        let len = jsqrt (jadd (jadd (jmul x x) (jmul y y)) (jmul z z));
            scalar = jdiv (Num 1) (if len = Num 0 \<or> len = NaN then Num 1 else len)
        in (jmul x scalar, jmul y scalar, jmul z scalar))"

text \<open>
  The loop of \<open>generateAtlas\<close> over \<open>rowIdx\<close> and \<open>colIdx\<close>, both from \<open>0\<close> to \<open>gridSize\<close>
  inclusive. An iteration whose flat index is outside the point array is skipped; every
  other one sets the camera to the normalised point and, when rendering and read-back
  succeed, draws the cell at \<open>(pixelX, pixelY)\<close>. The result lists, in order, the
  iterations that are not skipped, as \<open>(rowIdx, colIdx, viewDir, pixelX, pixelY)\<close>.
  The flat array \<open>pntOct\<close> has three entries per point.
\<close>

definition bakeViews :: "int \<Rightarrow> int \<Rightarrow> vec3 list \<Rightarrow> (int \<times> int \<times> vec3 \<times> jsnum \<times> jsnum) list" where
  "bakeViews gridSize atlasSize pnts =
     (let numCells = gridSize
      in concat (map (\<lambda>rowIdx. concat (map (\<lambda>colIdx.
           let flatIdx = rowIdx * numCells + colIdx
           in if flatIdx * 3 + 2 \<ge> 3 * int (length pnts) then []
              else
                let viewDir = vnormalize (pnts ! nat flatIdx);
                    pixelX = jfloor (jmul (jdiv (jint colIdx) (jint numCells)) (jint atlasSize));
                    pixelY = jfloor (jmul (jdiv (jint rowIdx) (jint numCells)) (jint atlasSize))
                in [(rowIdx, colIdx, viewDir, pixelX, pixelY)]) [0..numCells])) [0..numCells]))"

section \<open>Atlas cache and pending bakes (hooks/useOctahedralAtlas.js)\<close>

text \<open>
  JavaScript runs every callback to completion, so the module state changes in atomic
  steps: a run of the effect of a hook instance (\<open>Request\<close>), the success or failure
  callback chained to a call of \<open>generateAtlas\<close> (\<open>Resolve\<close>, \<open>Reject\<close>), the \<open>finally\<close>
  callback of the chained promise (\<open>Finally\<close>), and the callbacks that a later effect
  attached to a pending promise (\<open>Notify\<close>). Calls of \<open>generateAtlas\<close> are numbered in the
  order they are made; the payload that wraps the texture of call \<open>p\<close> is identified with
  \<open>p\<close>. A promise callback runs only after its promise is settled, and the \<open>finally\<close>
  callback runs once.
\<close>

type_synonym key = string

datatype pstate = Running | Fulfilled | Rejected

record bake =
  bake_key :: key
  bake_owner :: nat
  bake_state :: pstate
  bake_finally :: bool

record atlasStore =
  atlasCache :: "key \<rightharpoonup> nat"
  pendingAtlasPromises :: "key \<rightharpoonup> nat"
  bakes :: "bake list"
  waiting :: "(nat \<times> nat \<times> key) list"
  atlasSet :: "(nat \<times> key \<times> nat) list"
  errorSet :: "(nat \<times> key \<times> nat) list"

datatype event =
    Request nat key
  | Resolve nat
  | Reject nat
  | Finally nat
  | Notify nat nat key

definition emptyStore :: atlasStore where
  "emptyStore = \<lparr>atlasCache = Map.empty, pendingAtlasPromises = Map.empty, bakes = [],
                  waiting = [], atlasSet = [], errorSet = []\<rparr>"

text \<open>The effect of hook instance \<open>r\<close> for the cache key \<open>k\<close>, with a mesh present: a cached
  atlas is set at once; a pending promise gets the callbacks of \<open>r\<close> attached; otherwise
  \<open>generateAtlas\<close> is called and its chained promise is stored as pending.\<close>

definition request :: "nat \<Rightarrow> key \<Rightarrow> atlasStore \<Rightarrow> atlasStore" where
  "request r k s =
     (case atlasCache s k of
        Some a \<Rightarrow> s\<lparr>atlasSet := (r, k, a) # atlasSet s\<rparr>
      | None \<Rightarrow>
          (case pendingAtlasPromises s k of
             Some p \<Rightarrow> s\<lparr>waiting := (p, r, k) # waiting s\<rparr>
           | None \<Rightarrow>
               let p = length (bakes s)
               in s\<lparr>bakes := bakes s @ [\<lparr>bake_key = k, bake_owner = r,
                                          bake_state = Running, bake_finally = False\<rparr>],
                    pendingAtlasPromises := (pendingAtlasPromises s)(k \<mapsto> p)\<rparr>))"

definition settled :: "atlasStore \<Rightarrow> nat \<Rightarrow> bool" where
  "settled s p = (p < length (bakes s) \<and> bake_state (bakes s ! p) \<noteq> Running)"

fun step :: "event \<Rightarrow> atlasStore \<Rightarrow> atlasStore option" where
  "step (Request r k) s = Some (request r k s)"
| "step (Resolve p) s =
     (if p < length (bakes s) \<and> bake_state (bakes s ! p) = Running
      then let b = bakes s ! p
           in Some (s\<lparr>atlasCache := (atlasCache s)(bake_key b \<mapsto> p),
                      atlasSet := (bake_owner b, bake_key b, p) # atlasSet s,
                      bakes := (bakes s)[p := b\<lparr>bake_state := Fulfilled\<rparr>]\<rparr>)
      else None)"
| "step (Reject p) s =
     (if p < length (bakes s) \<and> bake_state (bakes s ! p) = Running
      then let b = bakes s ! p
           in Some (s\<lparr>errorSet := (bake_owner b, bake_key b, p) # errorSet s,
                      bakes := (bakes s)[p := b\<lparr>bake_state := Rejected\<rparr>]\<rparr>)
      else None)"
| "step (Finally p) s =
     (if settled s p \<and> \<not> bake_finally (bakes s ! p)
      then let b = bakes s ! p
           in Some (s\<lparr>pendingAtlasPromises := (pendingAtlasPromises s)(bake_key b := None),
                      bakes := (bakes s)[p := b\<lparr>bake_finally := True\<rparr>]\<rparr>)
      else None)"
| "step (Notify p r k) s =
     (if settled s p \<and> (p, r, k) \<in> set (waiting s)
      then Some (if bake_state (bakes s ! p) = Fulfilled
                 then s\<lparr>waiting := remove1 (p, r, k) (waiting s),
                        atlasSet := (r, k, p) # atlasSet s\<rparr>
                 else s\<lparr>waiting := remove1 (p, r, k) (waiting s),
                        errorSet := (r, k, p) # errorSet s\<rparr>)
      else None)"

fun run :: "event list \<Rightarrow> atlasStore \<Rightarrow> atlasStore option" where
  "run [] s = Some s"
| "run (e # es) s = (case step e s of None \<Rightarrow> None | Some s' \<Rightarrow> run es s')"

text \<open>The invariant of the store that the steps preserve.\<close>

definition storeInv :: "atlasStore \<Rightarrow> bool" where
  "storeInv s =
     ((\<forall>k p. pendingAtlasPromises s k = Some p \<longrightarrow>
          p < length (bakes s) \<and> bake_key (bakes s ! p) = k \<and> \<not> bake_finally (bakes s ! p))
    \<and> (\<forall>p. p < length (bakes s) \<and> \<not> bake_finally (bakes s ! p) \<longrightarrow>
          pendingAtlasPromises s (bake_key (bakes s ! p)) = Some p)
    \<and> (\<forall>p. p < length (bakes s) \<and> bake_state (bakes s ! p) = Fulfilled \<longrightarrow>
          atlasCache s (bake_key (bakes s ! p)) = Some p)
    \<and> (\<forall>k a. atlasCache s k = Some a \<longrightarrow>
          a < length (bakes s) \<and> bake_key (bakes s ! a) = k
          \<and> bake_state (bakes s ! a) = Fulfilled)
    \<and> (\<forall>p. p < length (bakes s) \<and> bake_finally (bakes s ! p) \<longrightarrow>
          bake_state (bakes s ! p) \<noteq> Running)
    \<and> (\<forall>p r k. (p, r, k) \<in> set (waiting s) \<longrightarrow>
          p < length (bakes s) \<and> bake_key (bakes s ! p) = k)
    \<and> (\<forall>r k a. (r, k, a) \<in> set (atlasSet s) \<longrightarrow> atlasCache s k = Some a)
    \<and> (\<forall>p. p < length (bakes s) \<and> bake_state (bakes s ! p) = Running \<longrightarrow>
          atlasCache s (bake_key (bakes s ! p)) = None))"

section \<open>Properties of the geometry builder\<close>

lemma length_concat_map_const:
  "(\<And>x. x \<in> set xs \<Longrightarrow> length (f x) = n) \<Longrightarrow> length (concat (map f xs)) = length xs * n"
  by (induction xs) auto

lemma length_createGrid:
  "length (createGrid xCells yCells) = nat (yCells + 1) * nat (xCells + 1)"
  unfolding createGrid_def Let_def
  by (rule trans [OF length_concat_map_const [where n = "nat (xCells + 1)"]]) simp_all

lemma length_octCellIndices: "length (octCellIndices isFull xCells yCells x y) = 6"
  by (simp add: octCellIndices_def Let_def)

lemma length_octPlaneIndices:
  "length (octPlaneIndices isFull xCells yCells) = nat yCells * (nat xCells * 6)"
  unfolding octPlaneIndices_def
  apply (rule trans [OF length_concat_map_const [where n = "nat xCells * 6"]])
   apply (rule trans [OF length_concat_map_const [where n = 6]])
    apply (simp_all add: length_octCellIndices)
  done

lemma createGrid_points:
  assumes "g \<noteq> 0" and "p \<in> set (createGrid g g)"
  shows "\<exists>a c. p = (Num a, Num 0, Num c)"
  using assms by (auto simp: createGrid_def Let_def)

lemma scaled_norm:
  fixes x y z :: real
  assumes "0 < x\<^sup>2 + y\<^sup>2 + z\<^sup>2"
  defines "m \<equiv> sqrt (x\<^sup>2 + y\<^sup>2 + z\<^sup>2)"
  shows "sqrt ((x / m * (1/2))\<^sup>2 + (y / m * (1/2))\<^sup>2 + (z / m * (1/2))\<^sup>2) = 1/2"
proof (rule real_sqrt_unique)
  have m2: "m\<^sup>2 = x\<^sup>2 + y\<^sup>2 + z\<^sup>2" using assms by (simp add: m_def)
  have mpos: "m\<^sup>2 \<noteq> 0" using assms m2 by simp
  have "(x / m * (1/2))\<^sup>2 + (y / m * (1/2))\<^sup>2 + (z / m * (1/2))\<^sup>2
        = (x\<^sup>2 + y\<^sup>2 + z\<^sup>2) / m\<^sup>2 * (1/2)\<^sup>2"
    by (simp add: power_mult_distrib power_divide add_divide_distrib distrib_right)
  also have "\<dots> = (1/2)\<^sup>2" using m2 mpos by simp
  finally show "(1/2)\<^sup>2 = (x / m * (1/2))\<^sup>2 + (y / m * (1/2))\<^sup>2 + (z / m * (1/2))\<^sup>2"
    by (rule sym)
  show "(0::real) \<le> 1/2" by simp
qed

lemma oct_sum_pos:
  fixes x z :: real
  shows "0 < x\<^sup>2 + (1 - \<bar>x\<bar> - \<bar>z\<bar>)\<^sup>2 + z\<^sup>2"
proof (cases "x = 0 \<and> z = 0")
  case True then show ?thesis by simp
next
  case False
  then have "0 < x\<^sup>2 + z\<^sup>2" by (metis add_pos_nonneg add_nonneg_pos zero_le_power2 zero_less_power2)
  moreover have "0 \<le> (1 - \<bar>x\<bar> - \<bar>z\<bar>)\<^sup>2" by simp
  ultimately show ?thesis by linarith
qed

text \<open>Dividing a finite non-zero vector by its length and scaling it to the radius.\<close>

lemma jnormalize_radius:
  fixes x y z :: real
  assumes "0 < x\<^sup>2 + y\<^sup>2 + z\<^sup>2"
  shows "\<exists>x' y' z'.
      (let m = jsqrt (jadd (jadd (jpow2 (Num x)) (jpow2 (Num y))) (jpow2 (Num z)))
       in (jmul (jdiv (Num x) m) (Num (1/2)), jmul (jdiv (Num y) m) (Num (1/2)),
           jmul (jdiv (Num z) m) (Num (1/2)))) = (Num x', Num y', Num z')
      \<and> sqrt (x'\<^sup>2 + y'\<^sup>2 + z'\<^sup>2) = 1/2"
proof -
  define m where "m = sqrt (x\<^sup>2 + y\<^sup>2 + z\<^sup>2)"
  have m0: "m \<noteq> 0" using assms by (simp add: m_def)
  have nn: "\<not> x * x + y * y + z * z < 0" using assms by (simp add: power2_eq_square)
  have jm: "jsqrt (jadd (jadd (jpow2 (Num x)) (jpow2 (Num y))) (jpow2 (Num z))) = Num m"
    using nn by (simp add: jpow2_def m_def power2_eq_square)
  have "sqrt ((x / m * (1/2))\<^sup>2 + (y / m * (1/2))\<^sup>2 + (z / m * (1/2))\<^sup>2) = 1/2"
    unfolding m_def using assms by (rule scaled_norm)
  then show ?thesis using m0 by (simp add: jm)
qed

lemma octHemi1_finite:
  "\<exists>x y z. octHemi1 (Num a, b, Num c) = (Num x, Num y, Num z) \<and> sqrt (x\<^sup>2 + y\<^sup>2 + z\<^sup>2) = 1/2"
proof -
  define x where "x = a - c"
  define z where "z = a + c"
  have pos: "0 < x\<^sup>2 + (1 - \<bar>x\<bar> - \<bar>z\<bar>)\<^sup>2 + z\<^sup>2" by (rule oct_sum_pos)
  have "octHemi1 (Num a, b, Num c) =
      (let m = jsqrt (jadd (jadd (jpow2 (Num x)) (jpow2 (Num (1 - \<bar>x\<bar> - \<bar>z\<bar>)))) (jpow2 (Num z)))
       in (jmul (jdiv (Num x) m) (Num (1/2)), jmul (jdiv (Num (1 - \<bar>x\<bar> - \<bar>z\<bar>)) m) (Num (1/2)),
           jmul (jdiv (Num z) m) (Num (1/2))))"
    by (simp add: octHemi1_def jsub_def Let_def x_def z_def)
  then show ?thesis using jnormalize_radius [OF pos] by simp
qed

lemma octFull1_finite:
  "\<exists>x y z. octFull1 (Num a, b, Num c) = (Num x, Num y, Num z) \<and> sqrt (x\<^sup>2 + y\<^sup>2 + z\<^sup>2) = 1/2"
proof -
  define u where "u = a * 2"
  define v where "v = c * 2"
  define x where "x = (if 1 - \<bar>u\<bar> - \<bar>v\<bar> < 0 then sgn u * (1 - \<bar>v\<bar>) else u)"
  define z where "z = (if 1 - \<bar>u\<bar> - \<bar>v\<bar> < 0 then sgn v * (1 - \<bar>u\<bar>) else v)"
  have pos: "0 < x\<^sup>2 + (1 - \<bar>x\<bar> - \<bar>z\<bar>)\<^sup>2 + z\<^sup>2" by (rule oct_sum_pos)
  have "octFull1 (Num a, b, Num c) =
      (let m = jsqrt (jadd (jadd (jpow2 (Num x)) (jpow2 (Num (1 - \<bar>x\<bar> - \<bar>z\<bar>)))) (jpow2 (Num z)))
       in (jmul (jdiv (Num x) m) (Num (1/2)), jmul (jdiv (Num (1 - \<bar>x\<bar> - \<bar>z\<bar>)) m) (Num (1/2)),
           jmul (jdiv (Num z) m) (Num (1/2))))"
    by (simp add: octFull1_def jsub_def Let_def x_def z_def u_def v_def)
  then show ?thesis using jnormalize_radius [OF pos] by simp
qed

text \<open>
  C10. For \<open>gridSize = 1\<close> the half width \<open>Math.floor(1 * 0.5)\<close> is \<open>0\<close>, the
  alternation key of the only cell is \<open>0 / 0\<close> floored, added and taken modulo 2, that is
  \<open>NaN\<close>, which is not strictly equal to any octahedron type. Whatever the type, the cell
  takes the forward-slash branch and pushes the six indices \<open>d, a, b, b, c, d\<close> of its
  four corners \<open>a = 0\<close>, \<open>b = 2\<close>, \<open>c = 3\<close>, \<open>d = 1\<close>.
\<close>

theorem octPlaneIndices_gridSize_one:
  "jfloor (jmul (jint 1) (Num (1/2))) = Num 0
   \<and> octAlt 1 1 0 0 = NaN
   \<and> \<not> jeq (octAlt 1 1 0 0) (jint isFull)
   \<and> [0..(1::int) - 1] = [0]
   \<and> octPlaneIndices isFull 1 1 = [1, 0, 2, 2, 3, 1]"
proof -
  have alt: "octAlt 1 1 0 0 = NaN"
    by (simp add: octAlt_def jinf_def)
  have r: "[0..(1::int) - 1] = [0]" by (simp add: upto.simps)
  have "octPlaneIndices isFull 1 1 = [1, 0, 2, 2, 3, 1]"
    by (simp add: octPlaneIndices_def r octCellIndices_def alt)
  with alt r show ?thesis by simp
qed

text \<open>
  C8. For an octahedron type that is neither \<open>HEMI\<close> nor \<open>FULL\<close>, and any grid size,
  \<open>buildOctahedralMesh\<close> throws: the result is the error, never a mesh.
\<close>

theorem buildOctahedralMesh_unknown_type:
  assumes "octType \<noteq> HEMI" and "octType \<noteq> FULL"
  shows "buildOctahedralMesh octType gridSize = Inl (UnknownOctahedronType octType)"
  using assms by (simp add: buildOctahedralMesh_def Let_def)

theorem buildOctahedralMesh_unknown_type_witness:
  "(2::int) \<noteq> HEMI \<and> 2 \<noteq> FULL \<and> buildOctahedralMesh 2 4 = Inl (UnknownOctahedronType 2)"
proof -
  have h: "(2::int) \<noteq> HEMI" and f: "(2::int) \<noteq> FULL" by (simp_all add: HEMI_def FULL_def)
  show ?thesis using h f buildOctahedralMesh_unknown_type [OF h f, of 4] by simp
qed

text \<open>
  C7 as stated fails: with \<open>gridSize = -1\<close> the builder returns an empty mesh, and with
  \<open>gridSize = 0\<close> a mesh of one point whose coordinates are \<open>NaN\<close>; no error is raised.
\<close>

theorem buildOctahedralMesh_nonpositive_counterexample:
  "buildOctahedralMesh HEMI (- 1) = Inr \<lparr>pntPlane = [], pntOct = [], indices = [], normals = []\<rparr>
   \<and> buildOctahedralMesh FULL 0 =
       Inr \<lparr>pntPlane = [(NaN, Num 0, NaN)], pntOct = [(NaN, NaN, NaN)], indices = [],
            normals = [(NaN, NaN, NaN)]\<rparr>"
  by (simp add: buildOctahedralMesh_def createGrid_def octPlaneIndices_def octHemi_def
      octFull_def octFull1_def toSphereNormal_def toSphereNormal1_def upto.simps Let_def
      HEMI_def FULL_def jinf_def jsub_def jpow2_def)

text \<open>
  C7, amended. The builder does not check the grid size. For \<open>gridSize \<le> 0\<close> and a known
  octahedron type the call succeeds and returns a mesh without triangle indices, with no
  point when \<open>gridSize < 0\<close> and a single point when \<open>gridSize = 0\<close>.
\<close>

theorem buildOctahedralMesh_nonpositive:
  assumes "gridSize \<le> 0" and "octType = HEMI \<or> octType = FULL"
  shows "\<exists>m. buildOctahedralMesh octType gridSize = Inr m \<and> indices m = []
           \<and> length (pntPlane m) = (if gridSize = 0 then 1 else 0)
           \<and> length (pntOct m) = (if gridSize = 0 then 1 else 0)"
proof -
  have len: "length (createGrid gridSize gridSize) = (if gridSize = 0 then 1 else 0)"
    using assms(1) by (simp add: length_createGrid)
  have idx: "octPlaneIndices t gridSize gridSize = []" for t
    using assms(1) by (simp add: octPlaneIndices_def)
  from assms(2) show ?thesis
  proof
    assume "octType = HEMI"
    then show ?thesis
      by (simp add: buildOctahedralMesh_def Let_def octHemi_def len idx del: length_0_conv)
  next
    assume "octType = FULL"
    then show ?thesis
      by (simp add: buildOctahedralMesh_def Let_def octFull_def len idx HEMI_def FULL_def
          del: length_0_conv)
  qed
qed

theorem buildOctahedralMesh_nonpositive_witness:
  "(0::int) \<le> 0 \<and> (HEMI = HEMI \<or> HEMI = FULL) \<and>
   (\<exists>m. buildOctahedralMesh HEMI 0 = Inr m \<and> indices m = []
        \<and> length (pntPlane m) = 1 \<and> length (pntOct m) = 1)"
  using buildOctahedralMesh_nonpositive [of 0 HEMI] by simp

text \<open>
  C4. For every integer \<open>gridSize \<ge> 1\<close> and type \<open>HEMI\<close> or \<open>FULL\<close>, the builder
  succeeds with \<open>(gridSize + 1)\<^sup>2\<close> points and \<open>6 * gridSize\<^sup>2\<close> indices, and every
  folded point is finite with Euclidean norm equal to the radius \<open>1/2\<close> (exactly, in the
  arithmetic of the reals).
\<close>

theorem buildOctahedralMesh_counts:
  assumes "1 \<le> gridSize" and "octType = HEMI \<or> octType = FULL"
  shows "\<exists>m. buildOctahedralMesh octType gridSize = Inr m
           \<and> int (length (pntPlane m)) = (gridSize + 1)\<^sup>2
           \<and> int (length (pntOct m)) = (gridSize + 1)\<^sup>2
           \<and> int (length (indices m)) = 6 * gridSize\<^sup>2
           \<and> (\<forall>p \<in> set (pntOct m). \<exists>x y z. p = (Num x, Num y, Num z)
                  \<and> sqrt (x\<^sup>2 + y\<^sup>2 + z\<^sup>2) = 1/2)"
proof -
  have g0: "gridSize \<noteq> 0" using assms by simp
  have len: "int (length (createGrid gridSize gridSize)) = (gridSize + 1)\<^sup>2"
    using assms by (simp add: length_createGrid power2_eq_square)
  have ilen: "int (length (octPlaneIndices t gridSize gridSize)) = 6 * gridSize\<^sup>2" for t
    using assms by (simp add: length_octPlaneIndices power2_eq_square)
  have hemi: "\<exists>x y z. p = (Num x, Num y, Num z) \<and> sqrt (x\<^sup>2 + y\<^sup>2 + z\<^sup>2) = 1/2"
    if "p \<in> set (octHemi (createGrid gridSize gridSize))" for p
  proof -
    from that obtain q where q: "q \<in> set (createGrid gridSize gridSize)" and p: "p = octHemi1 q"
      by (auto simp: octHemi_def)
    from createGrid_points [OF g0 q] obtain a c where "q = (Num a, Num 0, Num c)" by blast
    with p octHemi1_finite [of a "Num 0" c] show ?thesis by simp
  qed
  have full: "\<exists>x y z. p = (Num x, Num y, Num z) \<and> sqrt (x\<^sup>2 + y\<^sup>2 + z\<^sup>2) = 1/2"
    if "p \<in> set (octFull (createGrid gridSize gridSize))" for p
  proof -
    from that obtain q where q: "q \<in> set (createGrid gridSize gridSize)" and p: "p = octFull1 q"
      by (auto simp: octFull_def)
    from createGrid_points [OF g0 q] obtain a c where "q = (Num a, Num 0, Num c)" by blast
    with p octFull1_finite [of a "Num 0" c] show ?thesis by simp
  qed
  from assms(2) show ?thesis
  proof
    assume t: "octType = HEMI"
    show ?thesis
      using len ilen hemi
      by (simp add: buildOctahedralMesh_def Let_def t octHemi_def)
  next
    assume t: "octType = FULL"
    show ?thesis
      using len ilen full
      by (simp add: buildOctahedralMesh_def Let_def t octFull_def HEMI_def FULL_def)
  qed
qed

theorem buildOctahedralMesh_counts_witness:
  "(1::int) \<le> 2 \<and> (HEMI = HEMI \<or> HEMI = FULL) \<and>
   (\<exists>m. buildOctahedralMesh HEMI 2 = Inr m
      \<and> int (length (pntPlane m)) = 9
      \<and> int (length (pntOct m)) = 9
      \<and> int (length (indices m)) = 24
      \<and> (\<forall>p \<in> set (pntOct m). \<exists>x y z. p = (Num x, Num y, Num z)
             \<and> sqrt (x\<^sup>2 + y\<^sup>2 + z\<^sup>2) = 1/2))"
  using buildOctahedralMesh_counts [of 2 HEMI] by simp


section \<open>Properties of the sampling cache\<close>

lemma nth_concat_map_const:
  assumes "\<And>x. x \<in> set xs \<Longrightarrow> length (f x) = n" and "k < length xs" and "j < n"
  shows "concat (map f xs) ! (k * n + j) = f (xs ! k) ! j"
  using assms
proof (induction xs arbitrary: k)
  case Nil
  then show ?case by simp
next
  case (Cons x xs)
  show ?case
  proof (cases k)
    case 0
    with Cons.prems show ?thesis by (simp add: nth_append)
  next
    case (Suc k')
    with Cons.prems have "concat (map f xs) ! (k' * n + j) = f (xs ! k') ! j"
      by (intro Cons.IH) auto
    with Suc Cons.prems show ?thesis by (simp add: nth_append)
  qed
qed

lemma cell_index_bound:
  fixes g row col :: int
  assumes "0 \<le> row" "row < g" "0 \<le> col" "col < g"
  shows "0 \<le> row * g + col" and "row * g + col < g * g"
proof -
  show "0 \<le> row * g + col" using assms by simp
  have "(row + 1) * g \<le> g * g" using assms by (intro mult_right_mono) auto
  then show "row * g + col < g * g" using assms by (simp add: algebra_simps)
qed

text \<open>The six indices of the cell \<open>(row, col)\<close> lie at \<open>6 * (row * g + col)\<close>.\<close>

lemma octPlaneIndices_nth:
  fixes g row col :: int
  assumes "0 \<le> row" "row < g" "0 \<le> col" "col < g" and j: "j < 6"
  shows "aget (octPlaneIndices t g g) (6 * (row * g + col) + int j)
         = Some (octCellIndices t g g col row ! j)"
proof -
  let ?rowchunk = "\<lambda>y. concat (map (\<lambda>x. octCellIndices t g g x y) [0..g - 1])"
  have g: "0 < g" using assms by simp
  have rl: "length (?rowchunk y) = nat g * 6" for y
    by (rule trans [OF length_concat_map_const [where n = 6]])
       (simp_all add: length_octCellIndices)
  have inner: "?rowchunk y ! (nat col * 6 + j) = octCellIndices t g g col y ! j" for y
    using assms
    by (subst nth_concat_map_const [where n = 6]) (simp_all add: length_octCellIndices)
  have cj: "nat col * 6 + j < nat g * 6" using assms by auto
  have "octPlaneIndices t g g ! (nat row * (nat g * 6) + (nat col * 6 + j))
        = ?rowchunk ([0..g - 1] ! nat row) ! (nat col * 6 + j)"
    unfolding octPlaneIndices_def
    using assms cj by (intro nth_concat_map_const) (simp_all add: rl)
  also have "\<dots> = octCellIndices t g g col row ! j"
    using assms by (simp add: inner)
  finally have nth: "octPlaneIndices t g g ! (nat row * (nat g * 6) + (nat col * 6 + j))
        = octCellIndices t g g col row ! j" .
  have b: "row * g + col < g * g" "0 \<le> row * g + col"
    using cell_index_bound [OF assms(1-4)] by simp_all
  have idx: "nat (6 * (row * g + col) + int j) = nat row * (nat g * 6) + (nat col * 6 + j)"
    using assms by (simp add: nat_add_distrib nat_mult_distrib algebra_simps)
  have "int j < 6" using j by simp
  moreover have "A < G \<Longrightarrow> J < 6 \<Longrightarrow> 6 * A + J < 6 * G" for A G J :: int by arith
  ultimately have "6 * (row * g + col) + int j < 6 * (g * g)" using b(1) by blast
  then have "nat (6 * (row * g + col) + int j) < nat (6 * (g * g))"
    using b by simp
  also have "nat (6 * (g * g)) = nat g * (nat g * 6)"
    using g by (simp add: nat_mult_distrib)
  finally have "nat (6 * (row * g + col) + int j) < nat g * (nat g * 6)" .
  moreover have "0 \<le> 6 * (row * g + col) + int j" using b by simp
  ultimately show ?thesis
    unfolding aget_def length_octPlaneIndices using nth idx by simp
qed

lemma length_aset: "0 \<le> j \<Longrightarrow> nat j < length cs \<Longrightarrow> length (aset cs j v) = length cs"
  by (simp add: aset_def)

lemma aget_aset:
  "0 \<le> j \<Longrightarrow> nat j < length cs \<Longrightarrow>
   aget (aset cs j v) i = (if i = j then Some (Some v) else aget cs i)"
  by (auto simp: aset_def aget_def nth_list_update)

lemma upto_snoc: "[0..int (Suc k) - 1] = [0..int k - 1] @ [int k]"
  using upto_rec2 [of 0 "int k"] by simp

text \<open>The inner loop, run for the first \<open>k\<close> columns of a row.\<close>

lemma cache_inner:
  fixes g row :: int and k :: nat
  assumes "0 \<le> row" "row < g" "int k \<le> g"
    and "length cs = nat (g * g)"
    and "\<forall>i. 0 \<le> i \<and> i < row * g \<longrightarrow> aget cs i = Some (Some (cacheCell ia (g + 1) (6 * i)))"
  shows "\<exists>cs'. fold (cacheStep ia g row) [0..int k - 1] (6 * (row * g), cs)
               = (6 * (row * g + int k), cs')
           \<and> length cs' = nat (g * g)
           \<and> (\<forall>i. 0 \<le> i \<and> i < row * g + int k
                  \<longrightarrow> aget cs' i = Some (Some (cacheCell ia (g + 1) (6 * i))))"
  using assms(3)
proof (induction k)
  case 0
  then show ?case using assms by simp
next
  case (Suc k)
  then obtain cs' where
    f: "fold (cacheStep ia g row) [0..int k - 1] (6 * (row * g), cs) = (6 * (row * g + int k), cs')"
    and l: "length cs' = nat (g * g)"
    and c: "\<forall>i. 0 \<le> i \<and> i < row * g + int k
                  \<longrightarrow> aget cs' i = Some (Some (cacheCell ia (g + 1) (6 * i)))"
    by auto
  have b: "0 \<le> row * g + int k" "row * g + int k < g * g"
    using cell_index_bound [of row g "int k"] assms Suc.prems by simp_all
  then have r: "nat (row * g + int k) < length cs'" using l by simp
  let ?cs = "aset cs' (row * g + int k) (cacheCell ia (g + 1) (6 * (row * g + int k)))"
  have "fold (cacheStep ia g row) [0..int (Suc k) - 1] (6 * (row * g), cs)
        = cacheStep ia g row (int k) (6 * (row * g + int k), cs')"
    by (simp only: upto_snoc fold_append o_apply f) simp
  also have "\<dots> = (6 * (row * g + int (Suc k)), ?cs)"
    by (simp add: cacheStep_def algebra_simps)
  finally have "fold (cacheStep ia g row) [0..int (Suc k) - 1] (6 * (row * g), cs)
        = (6 * (row * g + int (Suc k)), ?cs)" .
  moreover have "length ?cs = nat (g * g)" using length_aset [OF b(1) r] l by simp
  moreover have "\<forall>i. 0 \<le> i \<and> i < row * g + int (Suc k)
                  \<longrightarrow> aget ?cs i = Some (Some (cacheCell ia (g + 1) (6 * i)))"
    using c by (auto simp: aget_aset [OF b(1) r])
  ultimately show ?case by blast
qed

text \<open>The outer loop, run for the first \<open>r\<close> rows.\<close>

lemma cache_outer:
  fixes g :: int and r :: nat
  assumes "int r \<le> g"
  shows "\<exists>cs'. fold (\<lambda>row. fold (cacheStep ia g row) [0..g - 1]) [0..int r - 1]
                 (0, replicate (nat (g * g)) None)
               = (6 * (int r * g), cs')
           \<and> length cs' = nat (g * g)
           \<and> (\<forall>i. 0 \<le> i \<and> i < int r * g
                  \<longrightarrow> aget cs' i = Some (Some (cacheCell ia (g + 1) (6 * i))))"
  using assms
proof (induction r)
  case 0
  then show ?case by auto
next
  case (Suc r)
  then obtain cs' where
    f: "fold (\<lambda>row. fold (cacheStep ia g row) [0..g - 1]) [0..int r - 1]
                 (0, replicate (nat (g * g)) None) = (6 * (int r * g), cs')"
    and l: "length cs' = nat (g * g)"
    and c: "\<forall>i. 0 \<le> i \<and> i < int r * g
                  \<longrightarrow> aget cs' i = Some (Some (cacheCell ia (g + 1) (6 * i)))"
    by auto
  have g: "0 \<le> g" using Suc.prems by simp
  have "int (nat g) \<le> g" using g by simp
  from cache_inner [OF _ _ this l c] Suc.prems g
  obtain cs'' where
    f': "fold (cacheStep ia g (int r)) [0..g - 1] (6 * (int r * g), cs')
           = (6 * (int r * g + g), cs'')"
    and l': "length cs'' = nat (g * g)"
    and c': "\<forall>i. 0 \<le> i \<and> i < int r * g + g
                  \<longrightarrow> aget cs'' i = Some (Some (cacheCell ia (g + 1) (6 * i)))"
    by auto
  have e: "int r * g + g = int (Suc r) * g" by (simp add: algebra_simps)
  have "fold (\<lambda>row. fold (cacheStep ia g row) [0..g - 1]) [0..int (Suc r) - 1]
                 (0, replicate (nat (g * g)) None) = (6 * (int (Suc r) * g), cs'')"
    by (simp only: upto_snoc fold_append o_apply f) (simp add: f' e)
  with l' c' e show ?case by auto
qed

lemma cacheLoop_cells:
  fixes g i :: int
  assumes "0 \<le> g" "0 \<le> i" "i < g * g"
  shows "aget (snd (cacheLoop ia g)) i = Some (Some (cacheCell ia (g + 1) (6 * i)))"
proof -
  have "int (nat g) \<le> g" using assms by simp
  from cache_outer [OF this, of ia] assms show ?thesis
    by (auto simp: cacheLoop_def)
qed

lemma octCellIndices_range:
  fixes g row col :: int
  assumes "0 \<le> row" "row < g" "0 \<le> col" "col < g" and j: "j < 6"
  shows "0 \<le> octCellIndices t g g col row ! j
       \<and> octCellIndices t g g col row ! j \<le> (g + 1)\<^sup>2 - 1"
proof -
  have r0: "0 \<le> (g + 1) * row" using assms by simp
  have "(g + 1) * (row + 1) \<le> (g + 1) * g" using assms by (intro mult_left_mono) auto
  then have r1: "(g + 1) * (row + 1) + col + 1 \<le> (g + 1)\<^sup>2 - 1"
    using assms by (simp add: power2_eq_square algebra_simps)
  have r2: "(g + 1) * row \<le> (g + 1) * (row + 1)" using assms by (simp add: algebra_simps)
  have a: "0 \<le> (g + 1) * row + col" "(g + 1) * row + col \<le> (g + 1)\<^sup>2 - 1"
    and b: "0 \<le> (g + 1) * (row + 1) + col" "(g + 1) * (row + 1) + col \<le> (g + 1)\<^sup>2 - 1"
    and c: "0 \<le> (g + 1) * (row + 1) + col + 1"
    and d: "0 \<le> (g + 1) * row + col + 1" "(g + 1) * row + col + 1 \<le> (g + 1)\<^sup>2 - 1"
    using r0 r1 r2 assms(3) by linarith+
  from j consider "j = 0" | "j = 1" | "j = 2" | "j = 3" | "j = 4" | "j = 5" by linarith
  then show ?thesis
    using a b c d r1 by cases (simp_all add: octCellIndices_def Let_def)
qed

text \<open>Both triangles of a cell of the cache hold three vertex indices of the mesh.\<close>

lemma cacheCell_triangles:
  fixes g row col :: int
  assumes "0 \<le> row" "row < g" "0 \<le> col" "col < g"
    and "tr = fst (triangles (cacheCell (octPlaneIndices t g g) (g + 1) (6 * (row * g + col))))
       \<or> tr = snd (triangles (cacheCell (octPlaneIndices t g g) (g + 1) (6 * (row * g + col))))"
  shows "\<exists>i0 i1 i2. tri_indices tr = (Some i0, Some i1, Some i2)
           \<and> 0 \<le> i0 \<and> i0 \<le> (g + 1)\<^sup>2 - 1
           \<and> 0 \<le> i1 \<and> i1 \<le> (g + 1)\<^sup>2 - 1
           \<and> 0 \<le> i2 \<and> i2 \<le> (g + 1)\<^sup>2 - 1"
proof -
  let ?ia = "octPlaneIndices t g g"
  let ?cur = "6 * (row * g + col)"
  let ?oc = "octCellIndices t g g col row"
  note nth = octPlaneIndices_nth [OF assms(1-4), of _ t]
  note rng = octCellIndices_range [OF assms(1-4), of _ t]
  have a0: "aget ?ia ?cur = Some (?oc ! 0)" using nth [of 0] by simp
  have a1: "aget ?ia (?cur + 1) = Some (?oc ! 1)" using nth [of 1] by simp
  have a2: "aget ?ia (?cur + 2) = Some (?oc ! 2)" using nth [of 2] by simp
  have a3: "aget ?ia (?cur + 3) = Some (?oc ! 3)" using nth [of 3] by simp
  have a4: "aget ?ia (?cur + 4) = Some (?oc ! 4)" using nth [of 4] by simp
  have a5: "aget ?ia (?cur + 5) = Some (?oc ! 5)" using nth [of 5] by simp
  have "tri_indices tr = (Some (?oc ! 0), Some (?oc ! 1), Some (?oc ! 2))
      \<or> tri_indices tr = (Some (?oc ! 3), Some (?oc ! 4), Some (?oc ! 5))"
    using assms(5) unfolding cacheCell_def Let_def a0 a1 a2 a3 a4 a5
    by (auto split: if_splits)
  then show ?thesis
    using rng [of 0] rng [of 1] rng [of 2] rng [of 3] rng [of 4] rng [of 5] by auto
qed

text \<open>The weights of \<open>computeBarycentric2D\<close> are non-negative and sum to one, for every
  point and every triangle.\<close>

lemma computeBarycentric2D_weights:
  assumes "computeBarycentric2D px py T = (w0, w1, w2)"
  shows "0 \<le> w0 \<and> 0 \<le> w1 \<and> 0 \<le> w2 \<and> w0 + w1 + w2 = 1"
proof -
  obtain ax ay bx "by" cx cy where T: "T = ((ax, ay), (bx, by), (cx, cy))"
    by (metis surj_pair)
  show ?thesis
    using assms unfolding T computeBarycentric2D_def Let_def
    by (auto split: if_splits simp: add_divide_distrib [symmetric])
qed

lemma sample_some:
  assumes uv: "encodeDirectionToOctUV direction = (u, v)"
    and col: "col = min (max \<lfloor>u * of_int (cache_gridSize c)\<rfloor> 0) (cache_gridSize c - 1)"
    and row: "row = min (max \<lfloor>v * of_int (cache_gridSize c)\<rfloor> 0) (cache_gridSize c - 1)"
    and cl: "aget (cells c) (row * cache_gridSize c + col) = Some (Some cl)"
  shows "\<exists>tr lu lv. (tr = fst (triangles cl) \<or> tr = snd (triangles cl))
           \<and> sampleOctahedralDirection direction (Some c)
               = Some (tri_indices tr, computeBarycentric2D lu lv (tri_uv tr))"
proof -
  define lu :: real
    where "lu = min (max (u * of_int (cache_gridSize c) - of_int col) 0) (999999 / 1000000)"
  define lv :: real
    where "lv = min (max (v * of_int (cache_gridSize c) - of_int row) 0) (999999 / 1000000)"
  define tr where "tr = (if isBackslash cl \<and> lu > lv then snd (triangles cl)
                         else if \<not> isBackslash cl \<and> lu + lv > 1 then snd (triangles cl)
                         else fst (triangles cl))"
  have "sampleOctahedralDirection direction (Some c)
        = Some (tri_indices tr, computeBarycentric2D lu lv (tri_uv tr))"
    unfolding sampleOctahedralDirection_def option.case uv prod.case Let_def
      col [symmetric] row [symmetric] cl tr_def lu_def lv_def
    by (rule refl)
  moreover have "tr = fst (triangles cl) \<or> tr = snd (triangles cl)"
    by (simp add: tr_def)
  ultimately show ?thesis by blast
qed

text \<open>
  C6. When the triangle is degenerate (the absolute value of the cross-product denominator
  is below \<open>1e-9\<close>) or the sum of the clamped components is not positive,
  \<open>computeBarycentric2D\<close> returns exactly \<open>(1/3, 1/3, 1/3)\<close>; it is a total function and
  has no error result.
\<close>

theorem computeBarycentric2D_degenerate:
  assumes "denom = (bx - ax) * (cy - ay) - (cx - ax) * (by - ay)"
    and "v = ((px - ax) * (cy - ay) - (cx - ax) * (py - ay)) * (1 / denom)"
    and "w = ((bx - ax) * (py - ay) - (px - ax) * (by - ay)) * (1 / denom)"
    and "u = 1 - v - w"
    and "\<bar>denom\<bar> < 1 / 10 ^ 9 \<or> max u 0 + max v 0 + max w 0 \<le> 0"
  shows "computeBarycentric2D px py ((ax, ay), (bx, by), (cx, cy)) = (1/3, 1/3, 1/3)"
  using assms by (auto simp: computeBarycentric2D_def Let_def)

theorem computeBarycentric2D_degenerate_witness:
  "\<bar>(0::real)\<bar> < 1 / 10 ^ 9
   \<and> computeBarycentric2D (1/4) (1/2) ((0, 0), (1, 1), (2, 2)) = (1/3, 1/3, 1/3)"
  using computeBarycentric2D_degenerate
    [of 0 1 0 2 0 2 1 0 "1/4" "1/2" 0 1]
  by simp

text \<open>
  C3. For every direction, every \<open>gridSize \<ge> 1\<close> and both octahedron types, the cache is
  built and \<open>sampleOctahedralDirection\<close> succeeds on it with three weights that are
  non-negative and sum to one, and three defined vertex indices between \<open>0\<close> and
  \<open>(gridSize + 1)\<^sup>2 - 1\<close>.
\<close>

theorem sampleOctahedralDirection_valid:
  assumes "1 \<le> gridSize" and "octType = HEMI \<or> octType = FULL"
  shows "\<exists>c i0 i1 i2 w0 w1 w2.
           buildSamplingCache octType gridSize = Inr c
         \<and> sampleOctahedralDirection direction (Some c)
             = Some ((Some i0, Some i1, Some i2), (w0, w1, w2))
         \<and> 0 \<le> w0 \<and> 0 \<le> w1 \<and> 0 \<le> w2 \<and> w0 + w1 + w2 = 1
         \<and> 0 \<le> i0 \<and> i0 \<le> (gridSize + 1)\<^sup>2 - 1
         \<and> 0 \<le> i1 \<and> i1 \<le> (gridSize + 1)\<^sup>2 - 1
         \<and> 0 \<le> i2 \<and> i2 \<le> (gridSize + 1)\<^sup>2 - 1"
proof -
  let ?g = gridSize
  let ?ia = "octPlaneIndices octType ?g ?g"
  define c where "c = \<lparr>cache_gridSize = ?g, cache_octType = octType,
                        cells = snd (cacheLoop ?ia ?g)\<rparr>"
  have bc: "buildSamplingCache octType ?g = Inr c"
    using assms(2)
    by (auto simp: buildSamplingCache_def buildOctahedralMesh_def Let_def c_def HEMI_def FULL_def)
  have gc: "cache_gridSize c = ?g" and cc: "cells c = snd (cacheLoop ?ia ?g)"
    by (simp_all add: c_def)
  obtain u v where uv: "encodeDirectionToOctUV direction = (u, v)"
    by (cases "encodeDirectionToOctUV direction")
  define col where "col = min (max \<lfloor>u * of_int (cache_gridSize c)\<rfloor> 0) (cache_gridSize c - 1)"
  define row where "row = min (max \<lfloor>v * of_int (cache_gridSize c)\<rfloor> 0) (cache_gridSize c - 1)"
  have rc: "0 \<le> row" "row < ?g" "0 \<le> col" "col < ?g"
    using assms(1) by (simp_all add: row_def col_def gc)
  let ?cl = "cacheCell ?ia (?g + 1) (6 * (row * ?g + col))"
  have cellb: "0 \<le> row * ?g + col" "row * ?g + col < ?g * ?g"
    using cell_index_bound [OF rc] by simp_all
  have "aget (snd (cacheLoop ?ia ?g)) (row * ?g + col) = Some (Some ?cl)"
    using assms(1) cellb by (intro cacheLoop_cells) simp_all
  then have cl: "aget (cells c) (row * cache_gridSize c + col) = Some (Some ?cl)"
    by (simp only: gc cc)
  from sample_some [OF uv col_def row_def cl]
  obtain tr lu lv where tr: "tr = fst (triangles ?cl) \<or> tr = snd (triangles ?cl)"
    and s: "sampleOctahedralDirection direction (Some c)
            = Some (tri_indices tr, computeBarycentric2D lu lv (tri_uv tr))"
    by blast
  from cacheCell_triangles [OF rc tr]
  obtain i0 i1 i2 where i: "tri_indices tr = (Some i0, Some i1, Some i2)"
    "0 \<le> i0" "i0 \<le> (?g + 1)\<^sup>2 - 1" "0 \<le> i1" "i1 \<le> (?g + 1)\<^sup>2 - 1"
    "0 \<le> i2" "i2 \<le> (?g + 1)\<^sup>2 - 1"
    by blast
  obtain w0 w1 w2 where w: "computeBarycentric2D lu lv (tri_uv tr) = (w0, w1, w2)"
    by (metis surj_pair)
  have s': "sampleOctahedralDirection direction (Some c)
            = Some ((Some i0, Some i1, Some i2), (w0, w1, w2))"
    by (simp only: s i(1) w)
  from computeBarycentric2D_weights [OF w] s' i(2-) bc show ?thesis by blast
qed

theorem sampleOctahedralDirection_valid_witness:
  "(1::int) \<le> 8 \<and> (HEMI = HEMI \<or> HEMI = FULL) \<and>
   (\<exists>c i0 i1 i2 w0 w1 w2.
           buildSamplingCache HEMI 8 = Inr c
         \<and> sampleOctahedralDirection (3/5, 4/5, 0) (Some c)
             = Some ((Some i0, Some i1, Some i2), (w0, w1, w2))
         \<and> 0 \<le> w0 \<and> 0 \<le> w1 \<and> 0 \<le> w2 \<and> w0 + w1 + w2 = 1
         \<and> 0 \<le> i0 \<and> i0 \<le> 80 \<and> 0 \<le> i1 \<and> i1 \<le> 80 \<and> 0 \<le> i2 \<and> i2 \<le> 80)"
  using sampleOctahedralDirection_valid [of 8 HEMI "(3/5, 4/5, 0)"] by simp


section \<open>Properties of the frame update\<close>

lemma dot3_unit_bounds:
  assumes "unit3 a" and "unit3 b"
  shows "- 1 \<le> dot3 a b" and "dot3 a b \<le> 1"
proof -
  obtain ax ay az bx "by" bz where a: "a = (ax, ay, az)" and b: "b = (bx, by, bz)"
    by (metis surj_pair)
  have ua: "ax * ax + ay * ay + az * az = 1" and ub: "bx * bx + by * by + bz * bz = 1"
    using assms by (simp_all add: unit3_def dot3_def a b)
  have "0 \<le> (ax + bx)\<^sup>2 + (ay + by)\<^sup>2 + (az + bz)\<^sup>2" by simp
  also have "\<dots> = (ax * ax + ay * ay + az * az) + (bx * bx + by * by + bz * bz)
                   + 2 * (ax * bx + ay * by + az * bz)"
    by (simp add: power2_eq_square algebra_simps)
  finally show "- 1 \<le> dot3 a b" by (simp add: ua ub dot3_def a b)
  have "0 \<le> (ax - bx)\<^sup>2 + (ay - by)\<^sup>2 + (az - bz)\<^sup>2" by simp
  also have "\<dots> = (ax * ax + ay * ay + az * az) + (bx * bx + by * by + bz * bz)
                   - 2 * (ax * bx + ay * by + az * bz)"
    by (simp add: power2_eq_square algebra_simps)
  finally show "dot3 a b \<le> 1" by (simp add: ua ub dot3_def a b)
qed

lemma arccos_le_iff_cos_le:
  assumes "- 1 \<le> x" "x \<le> 1" "0 \<le> t" "t \<le> pi"
  shows "arccos x \<le> t \<longleftrightarrow> cos t \<le> x"
proof
  assume "arccos x \<le> t"
  then have "cos t \<le> cos (arccos x)"
    using assms arccos_lbound [of x] by (intro cos_monotone_0_pi_le) auto
  then show "cos t \<le> x" using assms by (simp add: cos_arccos)
next
  assume c: "cos t \<le> x"
  have "arccos x \<le> arccos (cos t)"
    using assms c by (subst arccos_le_mono) (auto simp: abs_le_iff)
  then show "arccos x \<le> t" using assms by (simp add: arccos_cos)
qed

lemma normalize3_unit:
  assumes "a \<noteq> (0, 0, 0)"
  shows "unit3 (normalize3 a)"
proof -
  obtain x y z where a: "a = (x, y, z)" by (metis surj_pair)
  define s where "s = x * x + y * y + z * z"
  have nz: "x \<noteq> 0 \<or> y \<noteq> 0 \<or> z \<noteq> 0" using assms a by simp
  have s0: "0 \<le> s" by (simp add: s_def)
  have "s \<noteq> 0"
    using nz unfolding s_def
    by (metis add_nonneg_eq_0_iff mult_eq_0_iff zero_le_square add_nonneg_nonneg)
  with s0 have sp: "0 < s" by simp
  then have l: "sqrt s \<noteq> 0" by simp
  have sq: "sqrt s * sqrt s = s" using s0 by simp
  have one: "x * (1 / sqrt s) * (x * (1 / sqrt s)) + y * (1 / sqrt s) * (y * (1 / sqrt s))
        + z * (1 / sqrt s) * (z * (1 / sqrt s)) = 1"
    using sp by (simp add: s_def add_divide_distrib [symmetric])
  have "normalize3 a = (x * (1 / sqrt s), y * (1 / sqrt s), z * (1 / sqrt s))"
    using l by (simp add: normalize3_def a Let_def s_def)
  then show ?thesis
    unfolding unit3_def dot3_def using one by (simp only: prod.case)
qed

text \<open>
  C5, amended. For an impostor with a stored unit direction \<open>p\<close> and a new view direction
  (the normalised vector from the target to the camera), with the threshold clamped to
  \<open>[0, \<pi>]\<close>: if the angle between the two is at most the threshold, the frame callback
  leaves the whole state unchanged; if it is greater, the callback runs and the lookup
  succeeds, the indices and weights of the lookup are written to the refs and the uniforms
  and the new direction is stored.
\<close>

theorem frame_hysteresis:
  assumes "lastDirection st = Some p" and "unit3 p" and "cameraPosition \<noteq> targetCenter"
    and "viewDir = normalize3 (sub3 cameraPosition targetCenter)"
    and "clamped = min (max directionThresholdRadians 0) pi"
  shows "(angleBetween p viewDir \<le> clamped \<longrightarrow>
            frame directionThresholdRadians mounted cache cameraPosition targetCenter st = st)
       \<and> (clamped < angleBetween p viewDir \<and> mounted
            \<and> sampleOctahedralDirection viewDir cache = Some (i, w) \<longrightarrow>
            frame directionThresholdRadians mounted cache cameraPosition targetCenter st
              = st\<lparr>faceIndices := i, faceWeights := w,
                   faceIndicesUniform := i, faceWeightsUniform := w,
                   lastDirection := Some viewDir\<rparr>)"
proof -
  have "sub3 cameraPosition targetCenter \<noteq> (0, 0, 0)"
    using assms(3) by (cases cameraPosition; cases targetCenter) (auto simp: sub3_def)
  then have u: "unit3 viewDir" unfolding assms(4) by (rule normalize3_unit)
  have c: "0 \<le> clamped" "clamped \<le> pi" using pi_ge_zero by (simp_all add: assms(5))
  note b = dot3_unit_bounds [OF assms(2) u]
  have iff: "angleBetween p viewDir \<le> clamped
             \<longleftrightarrow> directionThresholdDot directionThresholdRadians \<le> dot3 p viewDir"
    unfolding angleBetween_def directionThresholdDot_def Let_def assms(5) [symmetric]
    using b c by (rule arccos_le_iff_cos_le)
  have cn: "cache \<noteq> None" if "sampleOctahedralDirection viewDir cache = Some (i, w)"
    using that by (cases cache) (simp_all add: sampleOctahedralDirection_def)
  show ?thesis
    using iff cn assms(1)
    by (auto simp: frame_def updateDirection_def assms(4) [symmetric])
qed

lemma cache_one:
  "buildSamplingCache HEMI 1 =
     Inr \<lparr>cache_gridSize = 1, cache_octType = HEMI,
          cells = [Some \<lparr>isBackslash = False,
                     triangles =
                       (\<lparr>tri_indices = (Some 1, Some 0, Some 2), tri_uv = ((1, 0), (0, 0), (0, 1))\<rparr>,
                        \<lparr>tri_indices = (Some 2, Some 3, Some 1), tri_uv = ((0, 1), (1, 1), (1, 0))\<rparr>)\<rparr>]\<rparr>"
  by (simp add: buildSamplingCache_def buildOctahedralMesh_def Let_def octPlaneIndices_def
      octCellIndices_def octAlt_def jinf_def upto.simps cacheLoop_def cacheStep_def aset_def
      cacheCell_def aget_def)

lemma sample_up:
  "sampleOctahedralDirection (0, 1, 0)
     (Some \<lparr>cache_gridSize = 1, cache_octType = HEMI,
          cells = [Some \<lparr>isBackslash = False,
                     triangles =
                       (\<lparr>tri_indices = (Some 1, Some 0, Some 2), tri_uv = ((1, 0), (0, 0), (0, 1))\<rparr>,
                        \<lparr>tri_indices = (Some 2, Some 3, Some 1), tri_uv = ((0, 1), (1, 1), (1, 0))\<rparr>)\<rparr>]\<rparr>)
   = Some ((Some 1, Some 0, Some 2), (1/2, 0, 1/2))"
  by (simp add: sampleOctahedralDirection_def encodeDirectionToOctUV_def Let_def aget_def
      computeBarycentric2D_def)

text \<open>
  C5 as stated fails on the boundary: with the threshold \<open>0\<close> and the new direction equal
  to the stored one, the angle \<open>0\<close> is not below the threshold, yet the callback returns
  before the lookup and the uniforms keep \<open>(1/3, 1/3, 1/3)\<close> where the lookup gives
  \<open>(1/2, 0, 1/2)\<close>.
\<close>

theorem frame_hysteresis_counterexample:
  "buildSamplingCache HEMI 1 =
     Inr \<lparr>cache_gridSize = 1, cache_octType = HEMI,
          cells = [Some \<lparr>isBackslash = False,
                     triangles =
                       (\<lparr>tri_indices = (Some 1, Some 0, Some 2), tri_uv = ((1, 0), (0, 0), (0, 1))\<rparr>,
                        \<lparr>tri_indices = (Some 2, Some 3, Some 1), tri_uv = ((0, 1), (1, 1), (1, 0))\<rparr>)\<rparr>]\<rparr>
   \<and> normalize3 (sub3 (0, 1, 0) (0, 0, 0)) = (0, 1, 0)
   \<and> angleBetween (0, 1, 0) (0, 1, 0) = 0
   \<and> \<not> angleBetween (0, 1, 0) (0, 1, 0) < 0
   \<and> sampleOctahedralDirection (0, 1, 0)
        (Some \<lparr>cache_gridSize = 1, cache_octType = HEMI,
          cells = [Some \<lparr>isBackslash = False,
                     triangles =
                       (\<lparr>tri_indices = (Some 1, Some 0, Some 2), tri_uv = ((1, 0), (0, 0), (0, 1))\<rparr>,
                        \<lparr>tri_indices = (Some 2, Some 3, Some 1), tri_uv = ((0, 1), (1, 1), (1, 0))\<rparr>)\<rparr>]\<rparr>)
       = Some ((Some 1, Some 0, Some 2), (1/2, 0, 1/2))
   \<and> frame 0 True
        (Some \<lparr>cache_gridSize = 1, cache_octType = HEMI,
          cells = [Some \<lparr>isBackslash = False,
                     triangles =
                       (\<lparr>tri_indices = (Some 1, Some 0, Some 2), tri_uv = ((1, 0), (0, 0), (0, 1))\<rparr>,
                        \<lparr>tri_indices = (Some 2, Some 3, Some 1), tri_uv = ((0, 1), (1, 1), (1, 0))\<rparr>)\<rparr>]\<rparr>)
        (0, 1, 0) (0, 0, 0)
        \<lparr>lastDirection = Some (0, 1, 0),
         faceIndices = (Some 1, Some 0, Some 2), faceWeights = (1/3, 1/3, 1/3),
         faceIndicesUniform = (Some 1, Some 0, Some 2), faceWeightsUniform = (1/3, 1/3, 1/3)\<rparr>
      = \<lparr>lastDirection = Some (0, 1, 0),
         faceIndices = (Some 1, Some 0, Some 2), faceWeights = (1/3, 1/3, 1/3),
         faceIndicesUniform = (Some 1, Some 0, Some 2), faceWeightsUniform = (1/3, 1/3, 1/3)\<rparr>"
proof -
  have n: "normalize3 (sub3 (0, 1, 0) (0, 0, 0)) = (0, 1, 0)"
    by (simp add: normalize3_def sub3_def)
  have a: "angleBetween (0, 1, 0) (0, 1, 0) = 0"
    by (simp add: angleBetween_def dot3_def)
  have f: "frame 0 True c (0, 1, 0) (0, 0, 0)
        \<lparr>lastDirection = Some (0, 1, 0),
         faceIndices = (Some 1, Some 0, Some 2), faceWeights = (1/3, 1/3, 1/3),
         faceIndicesUniform = (Some 1, Some 0, Some 2), faceWeightsUniform = (1/3, 1/3, 1/3)\<rparr>
      = \<lparr>lastDirection = Some (0, 1, 0),
         faceIndices = (Some 1, Some 0, Some 2), faceWeights = (1/3, 1/3, 1/3),
         faceIndicesUniform = (Some 1, Some 0, Some 2), faceWeightsUniform = (1/3, 1/3, 1/3)\<rparr>" for c
    by (simp add: frame_def updateDirection_def n directionThresholdDot_def dot3_def)
  show ?thesis
    by (simp only: cache_one sample_up n a f) simp
qed

theorem frame_hysteresis_witness:
  "frame 0 True
        (Some \<lparr>cache_gridSize = 1, cache_octType = HEMI,
          cells = [Some \<lparr>isBackslash = False,
                     triangles =
                       (\<lparr>tri_indices = (Some 1, Some 0, Some 2), tri_uv = ((1, 0), (0, 0), (0, 1))\<rparr>,
                        \<lparr>tri_indices = (Some 2, Some 3, Some 1), tri_uv = ((0, 1), (1, 1), (1, 0))\<rparr>)\<rparr>]\<rparr>)
        (1, 0, 0) (0, 0, 0)
        \<lparr>lastDirection = Some (1, 0, 0),
         faceIndices = (Some 2, Some 3, Some 1), faceWeights = (1/1000000, 499999/1000000, 1/2),
         faceIndicesUniform = (Some 2, Some 3, Some 1),
         faceWeightsUniform = (1/1000000, 499999/1000000, 1/2)\<rparr>
      = \<lparr>lastDirection = Some (1, 0, 0),
         faceIndices = (Some 2, Some 3, Some 1), faceWeights = (1/1000000, 499999/1000000, 1/2),
         faceIndicesUniform = (Some 2, Some 3, Some 1),
         faceWeightsUniform = (1/1000000, 499999/1000000, 1/2)\<rparr>
   \<and> frame 0 True
        (Some \<lparr>cache_gridSize = 1, cache_octType = HEMI,
          cells = [Some \<lparr>isBackslash = False,
                     triangles =
                       (\<lparr>tri_indices = (Some 1, Some 0, Some 2), tri_uv = ((1, 0), (0, 0), (0, 1))\<rparr>,
                        \<lparr>tri_indices = (Some 2, Some 3, Some 1), tri_uv = ((0, 1), (1, 1), (1, 0))\<rparr>)\<rparr>]\<rparr>)
        (0, 1, 0) (0, 0, 0)
        \<lparr>lastDirection = Some (1, 0, 0),
         faceIndices = (Some 2, Some 3, Some 1), faceWeights = (1/1000000, 499999/1000000, 1/2),
         faceIndicesUniform = (Some 2, Some 3, Some 1),
         faceWeightsUniform = (1/1000000, 499999/1000000, 1/2)\<rparr>
      = \<lparr>lastDirection = Some (0, 1, 0),
         faceIndices = (Some 1, Some 0, Some 2), faceWeights = (1/2, 0, 1/2),
         faceIndicesUniform = (Some 1, Some 0, Some 2), faceWeightsUniform = (1/2, 0, 1/2)\<rparr>"
proof -
  let ?c = "Some \<lparr>cache_gridSize = 1, cache_octType = HEMI,
          cells = [Some \<lparr>isBackslash = False,
                     triangles =
                       (\<lparr>tri_indices = (Some 1, Some 0, Some 2), tri_uv = ((1, 0), (0, 0), (0, 1))\<rparr>,
                        \<lparr>tri_indices = (Some 2, Some 3, Some 1), tri_uv = ((0, 1), (1, 1), (1, 0))\<rparr>)\<rparr>]\<rparr>"
  let ?st = "\<lparr>lastDirection = Some (1, 0, 0),
         faceIndices = (Some 2, Some 3, Some 1), faceWeights = (1/1000000, 499999/1000000, 1/2),
         faceIndicesUniform = (Some 2, Some 3, Some 1),
         faceWeightsUniform = (1/1000000, 499999/1000000, 1/2)\<rparr>"
  have l: "lastDirection ?st = Some (1, 0, 0)" by simp
  have u: "unit3 (1, 0, 0)" by (simp add: unit3_def dot3_def)
  have ne1: "(1::real, 0::real, 0::real) \<noteq> (0, 0, 0)" and ne2: "(0::real, 1::real, 0::real) \<noteq> (0, 0, 0)"
    by simp_all
  have n1: "(1, 0, 0) = normalize3 (sub3 (1, 0, 0) (0, 0, 0))"
    and n2: "(0, 1, 0) = normalize3 (sub3 (0, 1, 0) (0, 0, 0))"
    by (simp_all add: normalize3_def sub3_def)
  have c: "(0::real) = min (max 0 0) pi" by simp
  have a1: "angleBetween (1, 0, 0) (1, 0, 0) \<le> 0"
    and a2: "0 < angleBetween (1, 0, 0) (0, 1, 0)"
    by (simp_all add: angleBetween_def dot3_def)
  from frame_hysteresis [OF l u ne1 n1 c, of True ?c] a1
  have A: "frame 0 True ?c (1, 0, 0) (0, 0, 0) ?st = ?st" by blast
  from frame_hysteresis [OF l u ne2 n2 c, of True ?c "(Some 1, Some 0, Some 2)" "(1/2, 0, 1/2)"]
    a2 sample_up
  have B: "frame 0 True ?c (0, 1, 0) (0, 0, 0) ?st
           = ?st\<lparr>faceIndices := (Some 1, Some 0, Some 2), faceWeights := (1/2, 0, 1/2),
                   faceIndicesUniform := (Some 1, Some 0, Some 2),
                   faceWeightsUniform := (1/2, 0, 1/2),
                   lastDirection := Some (0, 1, 0)\<rparr>"
    by blast
  show ?thesis using A B by simp
qed

section \<open>Properties of the baking loop\<close>

lemma sqrt_quarter: "sqrt (1/4) = 1/2"
  by (rule real_sqrt_unique) (simp_all add: power2_eq_square)

lemma concat_map_singleton_cong:
  assumes "\<And>x. x \<in> set xs \<Longrightarrow> f x = [h x]"
  shows "concat (map f xs) = map h xs"
  using assms by (induction xs) auto

lemma bake_index_bound:
  fixes g r c :: int
  assumes "0 \<le> r" "r \<le> g" "0 \<le> c" "c \<le> g"
  shows "0 \<le> r * g + c" and "r * g + c < (g + 1)\<^sup>2"
proof -
  show "0 \<le> r * g + c" using assms by simp
  have "r * g \<le> g * g" using assms by (intro mult_right_mono) auto
  then show "r * g + c < (g + 1)\<^sup>2" using assms by (simp add: power2_eq_square algebra_simps)
qed

text \<open>
  C2, amended. For \<open>gridSize \<ge> 1\<close> the baking loop runs its body for all
  \<open>(gridSize + 1)\<^sup>2\<close> pairs \<open>(rowIdx, colIdx)\<close>, both edges included, and skips none; the
  view direction of the pair is the normalised octahedron point at the flat index
  \<open>rowIdx * gridSize + colIdx\<close>.
\<close>

theorem bakeViews_directions:
  assumes "1 \<le> gridSize" and "buildOctahedralMesh octType gridSize = Inr m"
  shows "bakeViews gridSize atlasSize (pntOct m) =
           concat (map (\<lambda>rowIdx. map (\<lambda>colIdx.
             (rowIdx, colIdx, vnormalize (pntOct m ! nat (rowIdx * gridSize + colIdx)),
              jfloor (jmul (jdiv (jint colIdx) (jint gridSize)) (jint atlasSize)),
              jfloor (jmul (jdiv (jint rowIdx) (jint gridSize)) (jint atlasSize))))
             [0..gridSize]) [0..gridSize])
       \<and> int (length (bakeViews gridSize atlasSize (pntOct m))) = (gridSize + 1)\<^sup>2"
proof -
  let ?g = gridSize
  have len: "int (length (pntOct m)) = (?g + 1)\<^sup>2"
    using assms
    by (auto simp: buildOctahedralMesh_def Let_def octHemi_def octFull_def length_createGrid
        power2_eq_square split: if_splits)
  let ?h = "\<lambda>rowIdx colIdx.
             (rowIdx, colIdx, vnormalize (pntOct m ! nat (rowIdx * ?g + colIdx)),
              jfloor (jmul (jdiv (jint colIdx) (jint ?g)) (jint atlasSize)),
              jfloor (jmul (jdiv (jint rowIdx) (jint ?g)) (jint atlasSize)))"
  have guard: "\<not> (r * ?g + c) * 3 + 2 \<ge> 3 * int (length (pntOct m))"
    if "r \<in> set [0..?g]" "c \<in> set [0..?g]" for r c
  proof -
    have "r * ?g + c < (?g + 1)\<^sup>2" using that by (intro bake_index_bound) auto
    moreover have "A < G \<Longrightarrow> \<not> 3 * G \<le> A * 3 + 2" for A G :: int by arith
    ultimately show ?thesis unfolding len by blast
  qed
  have eq: "bakeViews ?g atlasSize (pntOct m)
            = concat (map (\<lambda>rowIdx. map (?h rowIdx) [0..?g]) [0..?g])"
    unfolding bakeViews_def Let_def
    by (intro arg_cong [where f = concat] map_cong refl concat_map_singleton_cong)
       (simp only: guard if_False)
  have "length (concat (map (\<lambda>rowIdx. map (?h rowIdx) [0..?g]) [0..?g]))
        = length [0..?g] * nat (?g + 1)"
    by (rule length_concat_map_const) simp
  then have "int (length (bakeViews ?g atlasSize (pntOct m))) = (?g + 1)\<^sup>2"
    using assms(1) unfolding eq by (simp add: power2_eq_square)
  with eq show ?thesis by simp
qed

theorem bakeViews_directions_witness:
  "(1::int) \<le> 1
   \<and> buildOctahedralMesh HEMI 1 =
       Inr \<lparr>pntPlane = [(Num (- 1/2), Num 0, Num (- 1/2)), (Num (1/2), Num 0, Num (- 1/2)),
                        (Num (- 1/2), Num 0, Num (1/2)), (Num (1/2), Num 0, Num (1/2))],
            pntOct = [(Num 0, Num 0, Num (- 1/2)), (Num (1/2), Num 0, Num 0),
                      (Num (- 1/2), Num 0, Num 0), (Num 0, Num 0, Num (1/2))],
            indices = [1, 0, 2, 2, 3, 1],
            normals = [(Num 0, Num 0, Num (- 1)), (Num 1, Num 0, Num 0),
                       (Num (- 1), Num 0, Num 0), (Num 0, Num 0, Num 1)]\<rparr>
   \<and> bakeViews 1 2048 [(Num 0, Num 0, Num (- 1/2)), (Num (1/2), Num 0, Num 0),
                        (Num (- 1/2), Num 0, Num 0), (Num 0, Num 0, Num (1/2))]
     = [(0, 0, (Num 0, Num 0, Num (- 1)), Num 0, Num 0),
        (0, 1, (Num 1, Num 0, Num 0), Num 2048, Num 0),
        (1, 0, (Num 1, Num 0, Num 0), Num 0, Num 2048),
        (1, 1, (Num (- 1), Num 0, Num 0), Num 2048, Num 2048)]"
proof -
  have m: "buildOctahedralMesh HEMI 1 =
       Inr \<lparr>pntPlane = [(Num (- 1/2), Num 0, Num (- 1/2)), (Num (1/2), Num 0, Num (- 1/2)),
                        (Num (- 1/2), Num 0, Num (1/2)), (Num (1/2), Num 0, Num (1/2))],
            pntOct = [(Num 0, Num 0, Num (- 1/2)), (Num (1/2), Num 0, Num 0),
                      (Num (- 1/2), Num 0, Num 0), (Num 0, Num 0, Num (1/2))],
            indices = [1, 0, 2, 2, 3, 1],
            normals = [(Num 0, Num 0, Num (- 1)), (Num 1, Num 0, Num 0),
                       (Num (- 1), Num 0, Num 0), (Num 0, Num 0, Num 1)]\<rparr>"
    by (simp add: buildOctahedralMesh_def createGrid_def octHemi_def octHemi1_def jsub_def
        jpow2_def upto.simps Let_def octPlaneIndices_def octCellIndices_def octAlt_def jinf_def
        toSphereNormal_def toSphereNormal1_def sqrt_quarter)
  have g: "(1::int) \<le> 1" by simp
  show ?thesis
    using bakeViews_directions [OF g m, of 2048] m
    by (simp add: upto.simps vnormalize_def sqrt_quarter)
qed

text \<open>
  C2 as stated fails: with \<open>gridSize = 1\<close> and the hemi-octahedron the cell \<open>(1, 0)\<close> is
  rendered from the point of index \<open>1\<close>, direction \<open>(1, 0, 0)\<close>, not from the lattice point
  \<open>1 * (1 + 1) + 0 = 2\<close>, direction \<open>(-1, 0, 0)\<close>; the direction \<open>(0, 0, 1)\<close> of the lattice
  point \<open>3\<close> is used by no cell.
\<close>

theorem bakeViews_directions_counterexample:
  "buildOctahedralMesh HEMI 1 =
       Inr \<lparr>pntPlane = [(Num (- 1/2), Num 0, Num (- 1/2)), (Num (1/2), Num 0, Num (- 1/2)),
                        (Num (- 1/2), Num 0, Num (1/2)), (Num (1/2), Num 0, Num (1/2))],
            pntOct = [(Num 0, Num 0, Num (- 1/2)), (Num (1/2), Num 0, Num 0),
                      (Num (- 1/2), Num 0, Num 0), (Num 0, Num 0, Num (1/2))],
            indices = [1, 0, 2, 2, 3, 1],
            normals = [(Num 0, Num 0, Num (- 1)), (Num 1, Num 0, Num 0),
                       (Num (- 1), Num 0, Num 0), (Num 0, Num 0, Num 1)]\<rparr>
   \<and> bakeViews 1 2048 [(Num 0, Num 0, Num (- 1/2)), (Num (1/2), Num 0, Num 0),
                        (Num (- 1/2), Num 0, Num 0), (Num 0, Num 0, Num (1/2))]
     = [(0, 0, (Num 0, Num 0, Num (- 1)), Num 0, Num 0),
        (0, 1, (Num 1, Num 0, Num 0), Num 2048, Num 0),
        (1, 0, (Num 1, Num 0, Num 0), Num 0, Num 2048),
        (1, 1, (Num (- 1), Num 0, Num 0), Num 2048, Num 2048)]
   \<and> vnormalize ([(Num 0, Num 0, Num (- 1/2)), (Num (1/2), Num 0, Num 0),
                    (Num (- 1/2), Num 0, Num 0), (Num 0, Num 0, Num (1/2))]
                   ! nat (1 * (1 + 1) + 0)) = (Num (- 1), Num 0, Num 0)
   \<and> vnormalize ([(Num 0, Num 0, Num (- 1/2)), (Num (1/2), Num 0, Num 0),
                    (Num (- 1/2), Num 0, Num 0), (Num 0, Num 0, Num (1/2))]
                   ! nat (1 * (1 + 1) + 1)) = (Num 0, Num 0, Num 1)"
  by (simp add: buildOctahedralMesh_def createGrid_def octHemi_def octHemi1_def jsub_def
        jpow2_def upto.simps Let_def octPlaneIndices_def octCellIndices_def octAlt_def jinf_def
        toSphereNormal_def toSphereNormal1_def sqrt_quarter bakeViews_def vnormalize_def)

section \<open>The encoder against the fold\<close>

lemma encode_scaled:
  fixes a b c m :: real
  assumes one: "\<bar>a\<bar> + b + \<bar>c\<bar> = 1" and b: "0 \<le> b" and m: "0 < m"
  defines "t \<equiv> 1 + 2 * m * (1 / 10 ^ 9)"
  shows "encodeDirectionToOctUV (a / m * (1/2), b / m * (1/2), c / m * (1/2))
         = (a / t * (1/2) + 1/2, c / t * (1/2) + 1/2)"
proof -
  have t: "0 < t" using m by (simp add: t_def)
  have sum: "\<bar>a / m * (1/2)\<bar> + \<bar>b / m * (1/2)\<bar> + \<bar>c / m * (1/2)\<bar> = 1 / (2 * m)"
  proof -
    have "\<bar>a / m * (1/2)\<bar> + \<bar>b / m * (1/2)\<bar> + \<bar>c / m * (1/2)\<bar>
          = (\<bar>a\<bar> + \<bar>b\<bar> + \<bar>c\<bar>) / (2 * m)"
      using m by (simp add: abs_mult add_divide_distrib)
    also have "\<bar>a\<bar> + \<bar>b\<bar> + \<bar>c\<bar> = 1" using one b by simp
    finally show ?thesis .
  qed
  define invSum where "invSum = 1 / (1 / (2 * m) + 1 / 10 ^ 9)"
  have inv: "invSum = 2 * m / t"
    using m t unfolding invSum_def t_def by (simp add: field_simps)
  have nx: "a / m * (1/2) * invSum = a / t"
    and ny: "b / m * (1/2) * invSum = b / t"
    and nz: "c / m * (1/2) * invSum = c / t"
    using m t by (simp_all add: inv)
  have nyp: "\<not> b / t < 0" using b t by (simp add: not_less)
  show ?thesis
    unfolding encodeDirectionToOctUV_def prod.case Let_def sum invSum_def [symmetric] nx ny nz
    using nyp by simp
qed

lemma encode_scaled_error:
  fixes a m :: real
  assumes "\<bar>a\<bar> \<le> 1" "0 < m" "m \<le> 1"
  shows "\<bar>(a / (1 + 2 * m * (1 / 10 ^ 9)) * (1/2) + 1/2) - (a * (1/2) + 1/2)\<bar> \<le> 1 / 10 ^ 9"
proof -
  define e :: real where "e = 1 / 10 ^ 9"
  define t where "t = 1 + 2 * m * e"
  have e: "0 < e" by (simp add: e_def)
  have t: "1 \<le> t" using assms e by (simp add: t_def)
  have "(a / t * (1/2) + 1/2) - (a * (1/2) + 1/2) = - (a * (m * e) / t)"
    using t by (simp add: t_def field_simps)
  then have "\<bar>(a / t * (1/2) + 1/2) - (a * (1/2) + 1/2)\<bar> = \<bar>a\<bar> * (m * e) / t"
    using t e assms by (simp add: abs_mult)
  also have "\<dots> \<le> \<bar>a\<bar> * (m * e) / 1"
    using t e assms by (intro divide_left_mono) auto
  also have "\<dots> = \<bar>a\<bar> * (m * e)" by simp
  also have "\<dots> \<le> 1 * (1 * e)"
    using assms e by (intro mult_mono) auto
  finally show ?thesis by (simp add: t_def e_def)
qed

lemma oct_norm_le_one:
  fixes u y v :: real
  assumes "\<bar>u\<bar> + y + \<bar>v\<bar> = 1" "0 \<le> y"
  shows "sqrt (u\<^sup>2 + y\<^sup>2 + v\<^sup>2) \<le> 1"
proof -
  have "0 \<le> 2 * (\<bar>u\<bar> * y + \<bar>u\<bar> * \<bar>v\<bar> + y * \<bar>v\<bar>)" using assms by simp
  moreover have "(\<bar>u\<bar> + y + \<bar>v\<bar>)\<^sup>2
        = u\<^sup>2 + y\<^sup>2 + v\<^sup>2 + 2 * (\<bar>u\<bar> * y + \<bar>u\<bar> * \<bar>v\<bar> + y * \<bar>v\<bar>)"
    by (simp add: power2_eq_square algebra_simps)
  ultimately have "u\<^sup>2 + y\<^sup>2 + v\<^sup>2 \<le> 1" using assms(1) by simp
  then show ?thesis by (simp add: real_sqrt_le_1_iff)
qed

lemma octFull1_upper:
  fixes px pz :: real
  assumes "\<bar>2 * px\<bar> + \<bar>2 * pz\<bar> \<le> 1"
  defines "u \<equiv> px * 2" and "v \<equiv> pz * 2"
  defines "y \<equiv> 1 - \<bar>u\<bar> - \<bar>v\<bar>"
  defines "m \<equiv> sqrt (u\<^sup>2 + y\<^sup>2 + v\<^sup>2)"
  shows "octFull1 (Num px, py, Num pz) = (Num (u / m * (1/2)), Num (y / m * (1/2)), Num (v / m * (1/2)))"
    and "0 < m" and "m \<le> 1" and "0 \<le> y" and "\<bar>u\<bar> + y + \<bar>v\<bar> = 1"
proof -
  show y: "0 \<le> y" using assms(1) by (simp add: y_def u_def v_def)
  show one: "\<bar>u\<bar> + y + \<bar>v\<bar> = 1" by (simp add: y_def)
  have pos: "0 < u\<^sup>2 + y\<^sup>2 + v\<^sup>2" unfolding y_def by (rule oct_sum_pos)
  then show m: "0 < m" by (simp add: m_def)
  show "m \<le> 1" unfolding m_def using one y by (rule oct_norm_le_one)
  have nn: "\<not> u * u + y * y + v * v < 0" using pos by (simp add: power2_eq_square)
  have jm: "jsqrt (jadd (jadd (jpow2 (Num u)) (jpow2 (Num y))) (jpow2 (Num v))) = Num m"
    using nn by (simp add: jpow2_def m_def power2_eq_square)
  have ny: "\<not> 1 - \<bar>u\<bar> - \<bar>v\<bar> < 0" using y by (simp add: y_def)
  have "octFull1 (Num px, py, Num pz) =
      (let mm = jsqrt (jadd (jadd (jpow2 (Num u)) (jpow2 (Num y))) (jpow2 (Num v)))
       in (jmul (jdiv (Num u) mm) (Num (1/2)), jmul (jdiv (Num y) mm) (Num (1/2)),
           jmul (jdiv (Num v) mm) (Num (1/2))))"
    using ny by (simp add: octFull1_def jsub_def Let_def u_def v_def y_def)
  then show "octFull1 (Num px, py, Num pz)
      = (Num (u / m * (1/2)), Num (y / m * (1/2)), Num (v / m * (1/2)))"
    using m by (simp add: jm)
qed

text \<open>
  C1, amended. For the full octahedron and every lattice point of the plane in the diamond
  \<open>\<bar>2 * px\<bar> + \<bar>2 * pz\<bar> \<le> 1\<close>, the folded point is finite and its encoding is within
  \<open>1e-9\<close> of the UV coordinates \<open>(px + 1/2, pz + 1/2)\<close> of the lattice point, in each
  coordinate.
\<close>

theorem encode_inverts_full_fold:
  assumes "1 \<le> gridSize" and "buildOctahedralMesh FULL gridSize = Inr m"
    and "k < length (pntPlane m)" and "pntPlane m ! k = (Num px, py, Num pz)"
    and "\<bar>2 * px\<bar> + \<bar>2 * pz\<bar> \<le> 1"
  shows "\<exists>x y z. pntOct m ! k = (Num x, Num y, Num z)
           \<and> \<bar>fst (encodeDirectionToOctUV (x, y, z)) - (px + 1/2)\<bar> \<le> 1 / 10 ^ 9
           \<and> \<bar>snd (encodeDirectionToOctUV (x, y, z)) - (pz + 1/2)\<bar> \<le> 1 / 10 ^ 9"
proof -
  define u where "u = px * 2"
  define v where "v = pz * 2"
  define y where "y = 1 - \<bar>u\<bar> - \<bar>v\<bar>"
  define n where "n = sqrt (u\<^sup>2 + y\<^sup>2 + v\<^sup>2)"
  note f1 = octFull1_upper(1) [OF assms(5), of py, folded u_def v_def, folded y_def, folded n_def]
  note f = octFull1_upper(2-5) [OF assms(5), folded u_def v_def, folded y_def, folded n_def]
  have "pntOct m = map octFull1 (pntPlane m)"
    using assms(2) by (auto simp: buildOctahedralMesh_def Let_def octFull_def FULL_def HEMI_def)
  then have p: "pntOct m ! k = (Num (u / n * (1/2)), Num (y / n * (1/2)), Num (v / n * (1/2)))"
    using assms(3,4) f1 by simp
  have enc: "encodeDirectionToOctUV (u / n * (1/2), y / n * (1/2), v / n * (1/2))
             = (u / (1 + 2 * n * (1 / 10 ^ 9)) * (1/2) + 1/2,
                v / (1 + 2 * n * (1 / 10 ^ 9)) * (1/2) + 1/2)"
    using f(4) f(3) f(1) by (rule encode_scaled)
  have au: "\<bar>u\<bar> \<le> 1" and av: "\<bar>v\<bar> \<le> 1" using f(3) f(4) by linarith+
  have e1: "\<bar>(u / (1 + 2 * n * (1 / 10 ^ 9)) * (1/2) + 1/2) - (u * (1/2) + 1/2)\<bar> \<le> 1 / 10 ^ 9"
    using au f(1) f(2) by (rule encode_scaled_error)
  have e2: "\<bar>(v / (1 + 2 * n * (1 / 10 ^ 9)) * (1/2) + 1/2) - (v * (1/2) + 1/2)\<bar> \<le> 1 / 10 ^ 9"
    using av f(1) f(2) by (rule encode_scaled_error)
  have q: "u * (1/2) + 1/2 = px + 1/2" "v * (1/2) + 1/2 = pz + 1/2"
    by (simp_all add: u_def v_def)
  show ?thesis
  proof (intro exI conjI)
    show "pntOct m ! k = (Num (u / n * (1/2)), Num (y / n * (1/2)), Num (v / n * (1/2)))"
      by (rule p)
    show "\<bar>fst (encodeDirectionToOctUV (u / n * (1/2), y / n * (1/2), v / n * (1/2)))
            - (px + 1/2)\<bar> \<le> 1 / 10 ^ 9"
      unfolding enc fst_conv q(1) [symmetric] by (rule e1)
    show "\<bar>snd (encodeDirectionToOctUV (u / n * (1/2), y / n * (1/2), v / n * (1/2)))
            - (pz + 1/2)\<bar> \<le> 1 / 10 ^ 9"
      unfolding enc snd_conv q(2) [symmetric] by (rule e2)
  qed
qed

theorem encode_inverts_full_fold_witness:
  "\<exists>m x y z. (1::int) \<le> 2 \<and> buildOctahedralMesh FULL 2 = Inr m
     \<and> 5 < length (pntPlane m) \<and> pntPlane m ! 5 = (Num (1/2), Num 0, Num 0)
     \<and> \<bar>2 * (1/2 :: real)\<bar> + \<bar>2 * (0 :: real)\<bar> \<le> 1
     \<and> pntOct m ! 5 = (Num x, Num y, Num z)
     \<and> \<bar>fst (encodeDirectionToOctUV (x, y, z)) - 1\<bar> \<le> 1 / 10 ^ 9
     \<and> \<bar>snd (encodeDirectionToOctUV (x, y, z)) - 1/2\<bar> \<le> 1 / 10 ^ 9"
proof -
  obtain m where m: "buildOctahedralMesh FULL 2 = Inr m"
    and pl: "pntPlane m = createGrid 2 2"
    by (simp add: buildOctahedralMesh_def Let_def HEMI_def FULL_def)
  have g: "(1::int) \<le> 2" by simp
  have l: "5 < length (pntPlane m)" by (simp add: pl length_createGrid)
  have p: "pntPlane m ! 5 = (Num (1/2), Num 0, Num 0)"
    by (simp add: pl createGrid_def upto.simps Let_def)
  have d: "\<bar>2 * (1/2 :: real)\<bar> + \<bar>2 * (0 :: real)\<bar> \<le> 1" by simp
  from encode_inverts_full_fold [OF g m l p d] g m l p d show ?thesis by auto
qed

text \<open>
  C1 as stated fails for both types. Hemi-octahedron, \<open>gridSize = 1\<close>: the lattice point
  \<open>0\<close> has UV \<open>(0, 0)\<close> and folds to \<open>(0, 0, -1/2)\<close>, whose encoded \<open>u\<close> is \<open>1/2\<close>. Full
  octahedron, \<open>gridSize = 1\<close>: the lattice point \<open>3\<close> has UV \<open>(1, 1)\<close> and folds to
  \<open>(0, 1/2, 0)\<close>, which encodes to \<open>(1/2, 1/2)\<close>. Where the round trip does work it is
  not exact: the plane point \<open>(1/2, 0, 0)\<close> of the full octahedron has \<open>u = 1\<close> and folds to
  itself, and its encoded \<open>u\<close> is \<open>1000000001 / 1000000002\<close>.
\<close>

theorem encode_inverts_fold_counterexample:
  "buildOctahedralMesh HEMI 1 =
       Inr \<lparr>pntPlane = [(Num (- 1/2), Num 0, Num (- 1/2)), (Num (1/2), Num 0, Num (- 1/2)),
                        (Num (- 1/2), Num 0, Num (1/2)), (Num (1/2), Num 0, Num (1/2))],
            pntOct = [(Num 0, Num 0, Num (- 1/2)), (Num (1/2), Num 0, Num 0),
                      (Num (- 1/2), Num 0, Num 0), (Num 0, Num 0, Num (1/2))],
            indices = [1, 0, 2, 2, 3, 1],
            normals = [(Num 0, Num 0, Num (- 1)), (Num 1, Num 0, Num 0),
                       (Num (- 1), Num 0, Num 0), (Num 0, Num 0, Num 1)]\<rparr>
   \<and> \<bar>fst (encodeDirectionToOctUV (0, 0, - 1/2)) - (- 1/2 + 1/2)\<bar> = 1/2
   \<and> buildOctahedralMesh FULL 1 =
       Inr \<lparr>pntPlane = [(Num (- 1/2), Num 0, Num (- 1/2)), (Num (1/2), Num 0, Num (- 1/2)),
                        (Num (- 1/2), Num 0, Num (1/2)), (Num (1/2), Num 0, Num (1/2))],
            pntOct = [(Num 0, Num (1/2), Num 0), (Num 0, Num (1/2), Num 0),
                      (Num 0, Num (1/2), Num 0), (Num 0, Num (1/2), Num 0)],
            indices = [1, 0, 2, 2, 3, 1],
            normals = [(Num 0, Num 1, Num 0), (Num 0, Num 1, Num 0),
                       (Num 0, Num 1, Num 0), (Num 0, Num 1, Num 0)]\<rparr>
   \<and> encodeDirectionToOctUV (0, 1/2, 0) = (1/2, 1/2)
   \<and> \<bar>fst (encodeDirectionToOctUV (0, 1/2, 0)) - (1/2 + 1/2)\<bar> = 1/2
   \<and> octFull1 (Num (1/2), Num 0, Num 0) = (Num (1/2), Num 0, Num 0)
   \<and> fst (encodeDirectionToOctUV (1/2, 0, 0)) = 1000000001 / 1000000002"
proof -
  have h: "buildOctahedralMesh HEMI 1 =
       Inr \<lparr>pntPlane = [(Num (- 1/2), Num 0, Num (- 1/2)), (Num (1/2), Num 0, Num (- 1/2)),
                        (Num (- 1/2), Num 0, Num (1/2)), (Num (1/2), Num 0, Num (1/2))],
            pntOct = [(Num 0, Num 0, Num (- 1/2)), (Num (1/2), Num 0, Num 0),
                      (Num (- 1/2), Num 0, Num 0), (Num 0, Num 0, Num (1/2))],
            indices = [1, 0, 2, 2, 3, 1],
            normals = [(Num 0, Num 0, Num (- 1)), (Num 1, Num 0, Num 0),
                       (Num (- 1), Num 0, Num 0), (Num 0, Num 0, Num 1)]\<rparr>"
    by (simp add: buildOctahedralMesh_def createGrid_def octHemi_def octHemi1_def jsub_def
        jpow2_def upto.simps Let_def octPlaneIndices_def octCellIndices_def octAlt_def jinf_def
        toSphereNormal_def toSphereNormal1_def sqrt_quarter)
  have f: "buildOctahedralMesh FULL 1 =
       Inr \<lparr>pntPlane = [(Num (- 1/2), Num 0, Num (- 1/2)), (Num (1/2), Num 0, Num (- 1/2)),
                        (Num (- 1/2), Num 0, Num (1/2)), (Num (1/2), Num 0, Num (1/2))],
            pntOct = [(Num 0, Num (1/2), Num 0), (Num 0, Num (1/2), Num 0),
                      (Num 0, Num (1/2), Num 0), (Num 0, Num (1/2), Num 0)],
            indices = [1, 0, 2, 2, 3, 1],
            normals = [(Num 0, Num 1, Num 0), (Num 0, Num 1, Num 0),
                       (Num 0, Num 1, Num 0), (Num 0, Num 1, Num 0)]\<rparr>"
    by (simp add: buildOctahedralMesh_def createGrid_def octFull_def octFull1_def jsub_def
        jpow2_def upto.simps Let_def octPlaneIndices_def octCellIndices_def octAlt_def jinf_def
        toSphereNormal_def toSphereNormal1_def sqrt_quarter HEMI_def FULL_def)
  have e1: "fst (encodeDirectionToOctUV (0, 0, - 1/2)) = 1/2"
    by (simp add: encodeDirectionToOctUV_def Let_def)
  have e2: "encodeDirectionToOctUV (0, 1/2, 0) = (1/2, 1/2)"
    by (simp add: encodeDirectionToOctUV_def Let_def)
  have o: "octFull1 (Num (1/2), Num 0, Num 0) = (Num (1/2), Num 0, Num 0)"
    by (simp add: octFull1_def jsub_def jpow2_def Let_def)
  have e3: "fst (encodeDirectionToOctUV (1/2, 0, 0)) = 1000000001 / 1000000002"
    by (simp add: encodeDirectionToOctUV_def Let_def)
  show ?thesis by (simp only: h f e1 e2 o e3) simp
qed

section \<open>Properties of the atlas store\<close>

lemma storeInv_empty: "storeInv emptyStore"
  unfolding storeInv_def emptyStore_def by simp

lemma invD1:
  "storeInv s \<Longrightarrow> pendingAtlasPromises s k = Some p \<Longrightarrow>
   p < length (bakes s) \<and> bake_key (bakes s ! p) = k \<and> \<not> bake_finally (bakes s ! p)"
  by (simp add: storeInv_def)

lemma invD2:
  "storeInv s \<Longrightarrow> p < length (bakes s) \<Longrightarrow> \<not> bake_finally (bakes s ! p) \<Longrightarrow>
   pendingAtlasPromises s (bake_key (bakes s ! p)) = Some p"
  by (simp add: storeInv_def)

lemma invD3:
  "storeInv s \<Longrightarrow> p < length (bakes s) \<Longrightarrow> bake_state (bakes s ! p) = Fulfilled \<Longrightarrow>
   atlasCache s (bake_key (bakes s ! p)) = Some p"
  by (simp add: storeInv_def)

lemma invD4:
  "storeInv s \<Longrightarrow> atlasCache s k = Some a \<Longrightarrow>
   a < length (bakes s) \<and> bake_key (bakes s ! a) = k \<and> bake_state (bakes s ! a) = Fulfilled"
  by (simp add: storeInv_def)

lemma invD5:
  "storeInv s \<Longrightarrow> p < length (bakes s) \<Longrightarrow> bake_finally (bakes s ! p) \<Longrightarrow>
   bake_state (bakes s ! p) \<noteq> Running"
  by (simp add: storeInv_def)

lemma invD6:
  "storeInv s \<Longrightarrow> (p, r, k) \<in> set (waiting s) \<Longrightarrow>
   p < length (bakes s) \<and> bake_key (bakes s ! p) = k"
  by (simp add: storeInv_def)

lemma invD7:
  "storeInv s \<Longrightarrow> (r, k, a) \<in> set (atlasSet s) \<Longrightarrow> atlasCache s k = Some a"
  by (simp add: storeInv_def)

lemma invD8:
  "storeInv s \<Longrightarrow> p < length (bakes s) \<Longrightarrow> bake_state (bakes s ! p) = Running \<Longrightarrow>
   atlasCache s (bake_key (bakes s ! p)) = None"
  by (simp add: storeInv_def)

lemma storeInvI:
  assumes "\<And>k p. pendingAtlasPromises s k = Some p \<Longrightarrow>
          p < length (bakes s) \<and> bake_key (bakes s ! p) = k \<and> \<not> bake_finally (bakes s ! p)"
    and "\<And>p. p < length (bakes s) \<Longrightarrow> \<not> bake_finally (bakes s ! p) \<Longrightarrow>
          pendingAtlasPromises s (bake_key (bakes s ! p)) = Some p"
    and "\<And>p. p < length (bakes s) \<Longrightarrow> bake_state (bakes s ! p) = Fulfilled \<Longrightarrow>
          atlasCache s (bake_key (bakes s ! p)) = Some p"
    and "\<And>k a. atlasCache s k = Some a \<Longrightarrow>
          a < length (bakes s) \<and> bake_key (bakes s ! a) = k
          \<and> bake_state (bakes s ! a) = Fulfilled"
    and "\<And>p. p < length (bakes s) \<Longrightarrow> bake_finally (bakes s ! p) \<Longrightarrow>
          bake_state (bakes s ! p) \<noteq> Running"
    and "\<And>p r k. (p, r, k) \<in> set (waiting s) \<Longrightarrow>
          p < length (bakes s) \<and> bake_key (bakes s ! p) = k"
    and "\<And>r k a. (r, k, a) \<in> set (atlasSet s) \<Longrightarrow> atlasCache s k = Some a"
    and "\<And>p. p < length (bakes s) \<Longrightarrow> bake_state (bakes s ! p) = Running \<Longrightarrow>
          atlasCache s (bake_key (bakes s ! p)) = None"
  shows "storeInv s"
  unfolding storeInv_def
  apply (intro conjI allI impI)
                 apply (simp_all add: assms)
  done

text \<open>Two bakes of one key are never both unsettled.\<close>

lemma not_finally_if_running:
  assumes "storeInv s" "p < length (bakes s)" "bake_state (bakes s ! p) = Running"
  shows "\<not> bake_finally (bakes s ! p)"
proof
  assume "bake_finally (bakes s ! p)"
  from invD5 [OF assms(1,2) this] assms(3) show False by simp
qed

lemma pending_if_running:
  assumes "storeInv s" "p < length (bakes s)" "bake_state (bakes s ! p) = Running"
  shows "pendingAtlasPromises s (bake_key (bakes s ! p)) = Some p"
  using assms(1,2) not_finally_if_running [OF assms] by (rule invD2)

lemma running_unique:
  assumes "storeInv s" "p < length (bakes s)" "q < length (bakes s)"
    and "bake_state (bakes s ! p) = Running" "bake_state (bakes s ! q) = Running"
    and "bake_key (bakes s ! p) = bake_key (bakes s ! q)"
  shows "p = q"
proof -
  have a: "pendingAtlasPromises s (bake_key (bakes s ! p)) = Some p"
    using assms(1,2,4) by (rule pending_if_running)
  have b: "pendingAtlasPromises s (bake_key (bakes s ! q)) = Some q"
    using assms(1,3,5) by (rule pending_if_running)
  have "Some p = Some q" by (simp only: a [symmetric] b [symmetric] assms(6))
  then show ?thesis by (simp only: option.inject)
qed

lemma storeInv_request:
  assumes inv: "storeInv s"
  shows "storeInv (request r k s)"
proof (cases "atlasCache s k")
  case (Some a)
  then have e: "request r k s = s\<lparr>atlasSet := (r, k, a) # atlasSet s\<rparr>"
    by (simp add: request_def)
  show ?thesis
    unfolding e
  proof (rule storeInvI, goal_cases)
    case (1 k p) then show ?case using invD1 [OF inv, of k p] by simp
  next
    case (2 p) then show ?case using invD2 [OF inv, of p] by simp
  next
    case (3 p) then show ?case using invD3 [OF inv, of p] by simp
  next
    case (4 k a) then show ?case using invD4 [OF inv, of k a] by simp
  next
    case (5 p) then show ?case using invD5 [OF inv, of p] by simp
  next
    case (6 p r k) then show ?case using invD6 [OF inv, of p r k] by simp
  next
    case (7 r' k' a') then show ?case using invD7 [OF inv, of r' k' a'] Some by auto
  next
    case (8 p) then show ?case using invD8 [OF inv, of p] by simp
  qed
next
  case None
  note c = this
  show ?thesis
  proof (cases "pendingAtlasPromises s k")
    case (Some p)
    then have e: "request r k s = s\<lparr>waiting := (p, r, k) # waiting s\<rparr>"
      using c by (simp add: request_def)
    show ?thesis
      unfolding e
    proof (rule storeInvI, goal_cases)
      case (1 k p) then show ?case using invD1 [OF inv, of k p] by simp
    next
      case (2 p) then show ?case using invD2 [OF inv, of p] by simp
    next
      case (3 p) then show ?case using invD3 [OF inv, of p] by simp
    next
      case (4 k a) then show ?case using invD4 [OF inv, of k a] by simp
    next
      case (5 p) then show ?case using invD5 [OF inv, of p] by simp
    next
      case (6 p' r' k') then show ?case
        using invD6 [OF inv, of p' r' k'] invD1 [OF inv Some] by auto
    next
      case (7 r' k' a') then show ?case using invD7 [OF inv, of r' k' a'] by simp
    next
      case (8 p) then show ?case using invD8 [OF inv, of p] by simp
    qed
  next
    case None
    let ?n = "length (bakes s)"
    let ?b = "\<lparr>bake_key = k, bake_owner = r, bake_state = Running, bake_finally = False\<rparr>"
    have e: "request r k s = s\<lparr>bakes := bakes s @ [?b],
                    pendingAtlasPromises := (pendingAtlasPromises s)(k \<mapsto> ?n)\<rparr>"
      using c None by (simp add: request_def Let_def)
    have old: "(bakes s @ [?b]) ! p = bakes s ! p" if "p < ?n" for p
      using that by (simp add: nth_append)
    have new: "(bakes s @ [?b]) ! ?n = ?b" by simp
    have split: "p < ?n \<or> p = ?n" if "p < length (bakes s @ [?b])" for p
      using that by auto
    show ?thesis
      unfolding e
    proof (rule storeInvI, goal_cases)
      case (1 k' p)
      show ?case
      proof (cases "k' = k")
        case True with 1 show ?thesis by auto
      next
        case False
        with 1 have "pendingAtlasPromises s k' = Some p" by simp
        from invD1 [OF inv this] show ?thesis by (simp add: old)
      qed
    next
      case (2 p)
      then have "p < ?n \<or> p = ?n" by auto
      then show ?case
      proof
        assume p: "p < ?n"
        with 2 have nf: "\<not> bake_finally (bakes s ! p)" by (simp add: old)
        from invD2 [OF inv p nf] None have "bake_key (bakes s ! p) \<noteq> k" by auto
        with invD2 [OF inv p nf] p show ?thesis by (simp add: old)
      next
        assume "p = ?n" then show ?thesis by auto
      qed
    next
      case (3 p)
      then have "p < ?n \<or> p = ?n" by auto
      then show ?case
      proof
        assume p: "p < ?n"
        with 3 invD3 [OF inv p] show ?thesis by (simp add: old)
      next
        assume "p = ?n" with 3 show ?thesis by auto
      qed
    next
      case (4 k' a)
      then have "atlasCache s k' = Some a" by simp
      from invD4 [OF inv this] show ?case by (simp add: old)
    next
      case (5 p)
      then have "p < ?n \<or> p = ?n" by auto
      then show ?case
      proof
        assume p: "p < ?n"
        with 5 invD5 [OF inv p] show ?thesis by (simp add: old)
      next
        assume "p = ?n" with 5 show ?thesis by auto
      qed
    next
      case (6 p r' k')
      then have "(p, r', k') \<in> set (waiting s)" by simp
      from invD6 [OF inv this] show ?case by (simp add: old)
    next
      case (7 r' k' a)
      then have "(r', k', a) \<in> set (atlasSet s)" by simp
      from invD7 [OF inv this] show ?case by simp
    next
      case (8 p)
      then have "p < ?n \<or> p = ?n" by auto
      then show ?case
      proof
        assume p: "p < ?n"
        with 8 invD8 [OF inv p] show ?thesis by (simp add: old)
      next
        assume "p = ?n" with c show ?thesis by auto
      qed
    qed
  qed
qed

lemma storeInv_resolve:
  assumes inv: "storeInv s" and p: "p < length (bakes s)"
    and run: "bake_state (bakes s ! p) = Running"
  shows "storeInv (s\<lparr>atlasCache := (atlasCache s)(bake_key (bakes s ! p) \<mapsto> p),
                      atlasSet := (bake_owner (bakes s ! p), bake_key (bakes s ! p), p) # atlasSet s,
                      bakes := (bakes s)[p := (bakes s ! p)\<lparr>bake_state := Fulfilled\<rparr>]\<rparr>)"
proof -
  let ?k = "bake_key (bakes s ! p)"
  let ?bs = "(bakes s)[p := (bakes s ! p)\<lparr>bake_state := Fulfilled\<rparr>]"
  have key: "bake_key (?bs ! q) = bake_key (bakes s ! q)" if "q < length (bakes s)" for q
    using that by (cases "q = p") simp_all
  have fin: "bake_finally (?bs ! q) = bake_finally (bakes s ! q)" if "q < length (bakes s)" for q
    using that by (cases "q = p") simp_all
  have st: "bake_state (?bs ! q) = (if q = p then Fulfilled else bake_state (bakes s ! q))"
    if "q < length (bakes s)" for q
    using that by (cases "q = p") simp_all
  have nocache: "atlasCache s ?k = None" using inv p run by (rule invD8)
  show ?thesis
  proof (rule storeInvI, goal_cases)
    case (1 k q)
    then have "pendingAtlasPromises s k = Some q" by simp
    from invD1 [OF inv this] show ?case by (simp add: key fin)
  next
    case (2 q)
    then have q: "q < length (bakes s)" and "\<not> bake_finally (bakes s ! q)" by (simp_all add: fin)
    from invD2 [OF inv this] q show ?case by (simp add: key)
  next
    case (3 q)
    then have q: "q < length (bakes s)" by simp
    show ?case
    proof (cases "q = p")
      case True then show ?thesis using q by (simp add: key)
    next
      case False
      with 3 q have f: "bake_state (bakes s ! q) = Fulfilled" by (simp add: st)
      from invD3 [OF inv q f] nocache have "bake_key (bakes s ! q) \<noteq> ?k" by auto
      with invD3 [OF inv q f] q show ?thesis by (simp add: key)
    qed
  next
    case (4 k a)
    show ?case
    proof (cases "k = ?k")
      case True
      with 4 have "a = p" by simp
      with True p show ?thesis by (simp add: key st)
    next
      case False
      with 4 have c: "atlasCache s k = Some a" by simp
      from invD4 [OF inv c] show ?thesis by (auto simp: key st)
    qed
  next
    case (5 q)
    then have q: "q < length (bakes s)" and f: "bake_finally (bakes s ! q)" by (simp_all add: fin)
    from invD5 [OF inv q f] q show ?case by (simp add: st)
  next
    case (6 q r k)
    then have "(q, r, k) \<in> set (waiting s)" by simp
    from invD6 [OF inv this] show ?case by (simp add: key)
  next
    case (7 r k a)
    then have "(r, k, a) = (bake_owner (bakes s ! p), ?k, p) \<or> (r, k, a) \<in> set (atlasSet s)"
      by simp
    then show ?case
    proof
      assume "(r, k, a) = (bake_owner (bakes s ! p), ?k, p)"
      then show ?thesis by simp
    next
      assume m: "(r, k, a) \<in> set (atlasSet s)"
      from invD7 [OF inv m] nocache have "k \<noteq> ?k" by auto
      with invD7 [OF inv m] show ?thesis by simp
    qed
  next
    case (8 q)
    then have q: "q < length (bakes s)" by simp
    with 8 have qp: "q \<noteq> p" and r: "bake_state (bakes s ! q) = Running"
      by (auto simp: st split: if_splits)
    have "bake_key (bakes s ! q) \<noteq> ?k"
      using running_unique [OF inv q p r run] qp by blast
    with invD8 [OF inv q r] q show ?case by (simp add: key)
  qed
qed

lemma storeInv_reject:
  assumes inv: "storeInv s" and p: "p < length (bakes s)"
    and run: "bake_state (bakes s ! p) = Running"
  shows "storeInv (s\<lparr>errorSet := (bake_owner (bakes s ! p), bake_key (bakes s ! p), p) # errorSet s,
                      bakes := (bakes s)[p := (bakes s ! p)\<lparr>bake_state := Rejected\<rparr>]\<rparr>)"
proof -
  let ?bs = "(bakes s)[p := (bakes s ! p)\<lparr>bake_state := Rejected\<rparr>]"
  have key: "bake_key (?bs ! q) = bake_key (bakes s ! q)" if "q < length (bakes s)" for q
    using that by (cases "q = p") simp_all
  have fin: "bake_finally (?bs ! q) = bake_finally (bakes s ! q)" if "q < length (bakes s)" for q
    using that by (cases "q = p") simp_all
  have st: "bake_state (?bs ! q) = (if q = p then Rejected else bake_state (bakes s ! q))"
    if "q < length (bakes s)" for q
    using that by (cases "q = p") simp_all
  show ?thesis
  proof (rule storeInvI, goal_cases)
    case (1 k q)
    then have "pendingAtlasPromises s k = Some q" by simp
    from invD1 [OF inv this] show ?case by (simp add: key fin)
  next
    case (2 q)
    then have q: "q < length (bakes s)" and "\<not> bake_finally (bakes s ! q)" by (simp_all add: fin)
    from invD2 [OF inv this] q show ?case by (simp add: key)
  next
    case (3 q)
    then have q: "q < length (bakes s)" by simp
    with 3 have "q \<noteq> p" and f: "bake_state (bakes s ! q) = Fulfilled"
      by (auto simp: st split: if_splits)
    from invD3 [OF inv q f] q show ?case by (simp add: key)
  next
    case (4 k a)
    then have c: "atlasCache s k = Some a" by simp
    from invD4 [OF inv c] run have "a \<noteq> p" by auto
    with invD4 [OF inv c] show ?case by (simp add: key st)
  next
    case (5 q)
    then have q: "q < length (bakes s)" and f: "bake_finally (bakes s ! q)" by (simp_all add: fin)
    from invD5 [OF inv q f] q show ?case by (simp add: st)
  next
    case (6 q r k)
    then have "(q, r, k) \<in> set (waiting s)" by simp
    from invD6 [OF inv this] show ?case by (simp add: key)
  next
    case (7 r k a)
    then have "(r, k, a) \<in> set (atlasSet s)" by simp
    from invD7 [OF inv this] show ?case by simp
  next
    case (8 q)
    then have q: "q < length (bakes s)" by simp
    with 8 have "q \<noteq> p" and r: "bake_state (bakes s ! q) = Running"
      by (auto simp: st split: if_splits)
    from invD8 [OF inv q r] q show ?case by (simp add: key)
  qed
qed

lemma storeInv_finally:
  assumes inv: "storeInv s" and p: "p < length (bakes s)"
    and nr: "bake_state (bakes s ! p) \<noteq> Running" and nf: "\<not> bake_finally (bakes s ! p)"
  shows "storeInv (s\<lparr>pendingAtlasPromises := (pendingAtlasPromises s)(bake_key (bakes s ! p) := None),
                      bakes := (bakes s)[p := (bakes s ! p)\<lparr>bake_finally := True\<rparr>]\<rparr>)"
proof -
  let ?k = "bake_key (bakes s ! p)"
  let ?bs = "(bakes s)[p := (bakes s ! p)\<lparr>bake_finally := True\<rparr>]"
  have key: "bake_key (?bs ! q) = bake_key (bakes s ! q)" if "q < length (bakes s)" for q
    using that by (cases "q = p") simp_all
  have st: "bake_state (?bs ! q) = bake_state (bakes s ! q)" if "q < length (bakes s)" for q
    using that by (cases "q = p") simp_all
  have fin: "bake_finally (?bs ! q) = (if q = p then True else bake_finally (bakes s ! q))"
    if "q < length (bakes s)" for q
    using that by (cases "q = p") simp_all
  have pp: "pendingAtlasPromises s ?k = Some p" using inv p nf by (rule invD2)
  show ?thesis
  proof (rule storeInvI, goal_cases)
    case (1 k q)
    then have k: "k \<noteq> ?k" and pq: "pendingAtlasPromises s k = Some q"
      by (auto split: if_splits)
    from invD1 [OF inv pq] k have "q \<noteq> p" by auto
    with invD1 [OF inv pq] show ?case by (simp add: key fin)
  next
    case (2 q)
    then have q: "q < length (bakes s)" by simp
    with 2 have qp: "q \<noteq> p" and f: "\<not> bake_finally (bakes s ! q)"
      by (auto simp: fin split: if_splits)
    have pq: "pendingAtlasPromises s (bake_key (bakes s ! q)) = Some q"
      using inv q f by (rule invD2)
    have "bake_key (bakes s ! q) \<noteq> ?k"
    proof
      assume "bake_key (bakes s ! q) = ?k"
      with pq pp have "Some q = Some p" by (simp only:)
      with qp show False by simp
    qed
    with pq q show ?case by (simp add: key)
  next
    case (3 q)
    then have q: "q < length (bakes s)" and f: "bake_state (bakes s ! q) = Fulfilled"
      by (simp_all add: st)
    from invD3 [OF inv q f] q show ?case by (simp add: key)
  next
    case (4 k a)
    then have c: "atlasCache s k = Some a" by simp
    from invD4 [OF inv c] show ?case by (simp add: key st)
  next
    case (5 q)
    then have q: "q < length (bakes s)" by simp
    show ?case
    proof (cases "q = p")
      case True with nr p show ?thesis by (simp add: st)
    next
      case False
      with 5 q have "bake_finally (bakes s ! q)" by (simp add: fin)
      from invD5 [OF inv q this] q show ?thesis by (simp add: st)
    qed
  next
    case (6 q r k)
    then have "(q, r, k) \<in> set (waiting s)" by simp
    from invD6 [OF inv this] show ?case by (simp add: key)
  next
    case (7 r k a)
    then have "(r, k, a) \<in> set (atlasSet s)" by simp
    from invD7 [OF inv this] show ?case by simp
  next
    case (8 q)
    then have q: "q < length (bakes s)" and r: "bake_state (bakes s ! q) = Running"
      by (simp_all add: st)
    from invD8 [OF inv q r] q show ?case by (simp add: key)
  qed
qed

lemma storeInv_waiting:
  assumes inv: "storeInv s" and sub: "set w \<subseteq> set (waiting s)"
  shows "storeInv (s\<lparr>waiting := w\<rparr>)"
proof (rule storeInvI, goal_cases)
  case (1 k p) then show ?case using invD1 [OF inv, of k p] by simp
next
  case (2 p) then show ?case using invD2 [OF inv, of p] by simp
next
  case (3 p) then show ?case using invD3 [OF inv, of p] by simp
next
  case (4 k a) then show ?case using invD4 [OF inv, of k a] by simp
next
  case (5 p) then show ?case using invD5 [OF inv, of p] by simp
next
  case (6 p r k)
  then have "(p, r, k) \<in> set (waiting s)" using sub by auto
  from invD6 [OF inv this] show ?case by simp
next
  case (7 r k a) then show ?case using invD7 [OF inv, of r k a] by simp
next
  case (8 p) then show ?case using invD8 [OF inv, of p] by simp
qed

lemma storeInv_errorSet:
  assumes inv: "storeInv s"
  shows "storeInv (s\<lparr>errorSet := e\<rparr>)"
proof (rule storeInvI, goal_cases)
  case (1 k p) then show ?case using invD1 [OF inv, of k p] by simp
next
  case (2 p) then show ?case using invD2 [OF inv, of p] by simp
next
  case (3 p) then show ?case using invD3 [OF inv, of p] by simp
next
  case (4 k a) then show ?case using invD4 [OF inv, of k a] by simp
next
  case (5 p) then show ?case using invD5 [OF inv, of p] by simp
next
  case (6 p r k) then show ?case using invD6 [OF inv, of p r k] by simp
next
  case (7 r k a) then show ?case using invD7 [OF inv, of r k a] by simp
next
  case (8 p) then show ?case using invD8 [OF inv, of p] by simp
qed

lemma storeInv_atlasSet:
  assumes inv: "storeInv s" and c: "atlasCache s k = Some a"
  shows "storeInv (s\<lparr>atlasSet := (r, k, a) # atlasSet s\<rparr>)"
proof (rule storeInvI, goal_cases)
  case (1 k p) then show ?case using invD1 [OF inv, of k p] by simp
next
  case (2 p) then show ?case using invD2 [OF inv, of p] by simp
next
  case (3 p) then show ?case using invD3 [OF inv, of p] by simp
next
  case (4 k a) then show ?case using invD4 [OF inv, of k a] by simp
next
  case (5 p) then show ?case using invD5 [OF inv, of p] by simp
next
  case (6 p r k) then show ?case using invD6 [OF inv, of p r k] by simp
next
  case (7 r' k' a') then show ?case using invD7 [OF inv, of r' k' a'] c by auto
next
  case (8 p) then show ?case using invD8 [OF inv, of p] by simp
qed

lemma storeInv_step:
  assumes inv: "storeInv s" and "step e s = Some s'"
  shows "storeInv s'"
proof (cases e)
  case (Request r k)
  with assms(2) have "s' = request r k s" by simp
  then show ?thesis using storeInv_request [OF inv] by simp
next
  case (Resolve p)
  with assms(2) show ?thesis
    using storeInv_resolve [OF inv, of p] by (auto simp: Let_def split: if_splits)
next
  case (Reject p)
  with assms(2) show ?thesis
    using storeInv_reject [OF inv, of p] by (auto simp: Let_def split: if_splits)
next
  case (Finally p)
  with assms(2) show ?thesis
    using storeInv_finally [OF inv, of p] by (auto simp: Let_def settled_def split: if_splits)
next
  case (Notify p r k)
  with assms(2) have en: "settled s p" "(p, r, k) \<in> set (waiting s)"
    by (auto split: if_splits)
  have w: "storeInv (s\<lparr>waiting := remove1 (p, r, k) (waiting s)\<rparr>)"
    using inv by (rule storeInv_waiting) (rule set_remove1_subset)
  show ?thesis
  proof (cases "bake_state (bakes s ! p) = Fulfilled")
    case True
    from invD6 [OF inv en(2)] have pk: "p < length (bakes s)" "bake_key (bakes s ! p) = k"
      by simp_all
    from invD3 [OF inv pk(1) True] pk(2) have "atlasCache s k = Some p" by simp
    then have "atlasCache (s\<lparr>waiting := remove1 (p, r, k) (waiting s)\<rparr>) k = Some p" by simp
    from storeInv_atlasSet [OF w this, of r] Notify assms(2) en True show ?thesis
      by simp
  next
    case False
    from storeInv_errorSet [OF w, of "(r, k, p) # errorSet s"] Notify assms(2) en False
    show ?thesis by simp
  qed
qed

lemma storeInv_run:
  assumes "storeInv s" and "run es s = Some s'"
  shows "storeInv s'"
  using assms
proof (induction es arbitrary: s)
  case Nil
  then show ?case by simp
next
  case (Cons e es)
  then obtain t where t: "step e s = Some t" and r: "run es t = Some s'"
    by (auto split: option.splits)
  from Cons.prems(1) t have "storeInv t" by (rule storeInv_step)
  then show ?case using r by (rule Cons.IH)
qed

text \<open>Requests for a key whose bake is pending only attach to the pending promise.\<close>

lemma requests_attach:
  assumes "atlasCache s k = None" and "pendingAtlasPromises s k = Some p"
  shows "\<exists>s'. run (map (\<lambda>r. Request r k) rs) s = Some s'
           \<and> bakes s' = bakes s \<and> atlasCache s' = atlasCache s
           \<and> pendingAtlasPromises s' = pendingAtlasPromises s
           \<and> atlasSet s' = atlasSet s
           \<and> waiting s' = rev (map (\<lambda>r. (p, r, k)) rs) @ waiting s"
  using assms
proof (induction rs arbitrary: s)
  case Nil
  then show ?case by simp
next
  case (Cons r rs)
  let ?t = "s\<lparr>waiting := (p, r, k) # waiting s\<rparr>"
  have t: "request r k s = ?t" using Cons.prems by (simp add: request_def)
  have "atlasCache ?t k = None" "pendingAtlasPromises ?t k = Some p"
    using Cons.prems by simp_all
  from Cons.IH [OF this] obtain s' where
    "run (map (\<lambda>r. Request r k) rs) ?t = Some s'" "bakes s' = bakes s"
    "atlasCache s' = atlasCache s" "pendingAtlasPromises s' = pendingAtlasPromises s"
    "atlasSet s' = atlasSet s"
    "waiting s' = rev (map (\<lambda>r. (p, r, k)) rs) @ (p, r, k) # waiting s"
    by auto
  then show ?case by (simp add: t)
qed

lemma requests_concurrent:
  assumes "atlasCache s k = None" and "pendingAtlasPromises s k = None"
  shows "\<exists>s'. run (map (\<lambda>r'. Request r' k) (r # rs)) s = Some s'
           \<and> bakes s' = bakes s @ [\<lparr>bake_key = k, bake_owner = r,
                                     bake_state = Running, bake_finally = False\<rparr>]
           \<and> pendingAtlasPromises s' k = Some (length (bakes s))
           \<and> atlasSet s' = atlasSet s
           \<and> waiting s' = rev (map (\<lambda>r'. (length (bakes s), r', k)) rs) @ waiting s"
proof -
  let ?b = "\<lparr>bake_key = k, bake_owner = r, bake_state = Running, bake_finally = False\<rparr>"
  let ?t = "s\<lparr>bakes := bakes s @ [?b],
              pendingAtlasPromises := (pendingAtlasPromises s)(k \<mapsto> length (bakes s))\<rparr>"
  have t: "request r k s = ?t" using assms by (simp add: request_def Let_def)
  have "atlasCache ?t k = None" "pendingAtlasPromises ?t k = Some (length (bakes s))"
    using assms by simp_all
  from requests_attach [OF this, of rs] obtain s' where
    "run (map (\<lambda>r. Request r k) rs) ?t = Some s'" "bakes s' = bakes ?t"
    "pendingAtlasPromises s' = pendingAtlasPromises ?t" "atlasSet s' = atlasSet ?t"
    "waiting s' = rev (map (\<lambda>r. (length (bakes s), r, k)) rs) @ waiting ?t"
    by blast
  then show ?thesis by (simp add: t)
qed

text \<open>
  C9. In every state that the store reaches from the empty one: two bakes of one key are
  never unsettled at the same time; all atlases handed to requesters of one key are the
  same instance; when a key is neither cached nor pending, any number of requests for it
  that arrive before a callback runs start exactly one bake, the first, and every later
  one waits on its promise; and a request for a cached or pending key starts no bake.
\<close>

theorem atlas_bake_deduplicated:
  assumes "run es emptyStore = Some s"
  shows "(\<forall>p q. p < length (bakes s) \<and> q < length (bakes s)
             \<and> bake_state (bakes s ! p) = Running \<and> bake_state (bakes s ! q) = Running
             \<and> bake_key (bakes s ! p) = bake_key (bakes s ! q) \<longrightarrow> p = q)
       \<and> (\<forall>r1 r2 k a1 a2. (r1, k, a1) \<in> set (atlasSet s) \<and> (r2, k, a2) \<in> set (atlasSet s)
             \<longrightarrow> a1 = a2)
       \<and> (atlasCache s k = None \<and> pendingAtlasPromises s k = None \<longrightarrow>
            (\<exists>s'. run (map (\<lambda>r'. Request r' k) (r # rs)) s = Some s'
               \<and> bakes s' = bakes s @ [\<lparr>bake_key = k, bake_owner = r,
                                         bake_state = Running, bake_finally = False\<rparr>]
               \<and> pendingAtlasPromises s' k = Some (length (bakes s))
               \<and> atlasSet s' = atlasSet s
               \<and> waiting s' = rev (map (\<lambda>r'. (length (bakes s), r', k)) rs) @ waiting s))
       \<and> (atlasCache s k \<noteq> None \<or> pendingAtlasPromises s k \<noteq> None \<longrightarrow>
            bakes (request r k s) = bakes s)"
proof -
  have inv: "storeInv s" using storeInv_empty assms by (rule storeInv_run)
  have one: "p = q" if "p < length (bakes s)" "q < length (bakes s)"
      "bake_state (bakes s ! p) = Running" "bake_state (bakes s ! q) = Running"
      "bake_key (bakes s ! p) = bake_key (bakes s ! q)" for p q
    using inv that by (rule running_unique)
  have same: "a1 = a2" if "(r1, k, a1) \<in> set (atlasSet s)" "(r2, k, a2) \<in> set (atlasSet s)"
    for r1 r2 k a1 a2
  proof -
    have "atlasCache s k = Some a1" "atlasCache s k = Some a2"
      using invD7 [OF inv] that by blast+
    then have "Some a1 = Some a2" by (simp only:)
    then show ?thesis by simp
  qed
  have none: "bakes (request r k s) = bakes s"
    if "atlasCache s k \<noteq> None \<or> pendingAtlasPromises s k \<noteq> None"
    using that by (auto simp: request_def split: option.splits)
  show ?thesis
    using one same none requests_concurrent [of s k r rs] by blast
qed

theorem atlas_bake_deduplicated_witness:
  "\<exists>s s'. run [Request 1 ''tree'', Request 2 ''tree'', Request 3 ''bush'', Resolve 0, Finally 0,
              Notify 0 2 ''tree''] emptyStore = Some s
     \<and> map bake_key (bakes s) = [''tree'', ''bush'']
     \<and> map bake_state (bakes s) = [Fulfilled, Running]
     \<and> atlasSet s = [(2, ''tree'', 0), (1, ''tree'', 0)]
     \<and> atlasCache s ''olive'' = None \<and> pendingAtlasPromises s ''olive'' = None
     \<and> run [Request 4 ''olive'', Request 5 ''olive'', Request 6 ''olive''] s = Some s'
     \<and> map bake_key (bakes s') = [''tree'', ''bush'', ''olive'']
     \<and> pendingAtlasPromises s' ''olive'' = Some 2
     \<and> waiting s' = [(2, 6, ''olive''), (2, 5, ''olive'')]
     \<and> atlasCache s ''tree'' \<noteq> None
     \<and> bakes (request 7 ''tree'' s) = bakes s"
proof -
  let ?es = "[Request 1 ''tree'', Request 2 ''tree'', Request 3 ''bush'', Resolve 0, Finally 0,
              Notify 0 2 ''tree'']"
  obtain s where s: "run ?es emptyStore = Some s"
    and k: "map bake_key (bakes s) = [''tree'', ''bush'']"
    and st: "map bake_state (bakes s) = [Fulfilled, Running]"
    and a: "atlasSet s = [(2, ''tree'', 0), (1, ''tree'', 0)]"
    and o: "atlasCache s ''olive'' = None" "pendingAtlasPromises s ''olive'' = None"
    and t: "atlasCache s ''tree'' \<noteq> None"
    and w: "waiting s = []"
    by (simp add: emptyStore_def request_def settled_def Let_def)
  from atlas_bake_deduplicated [OF s, of "''olive''" 4 "[5, 6]"] o
  obtain s' where s': "run [Request 4 ''olive'', Request 5 ''olive'', Request 6 ''olive''] s = Some s'"
    "bakes s' = bakes s @ [\<lparr>bake_key = ''olive'', bake_owner = 4,
                                         bake_state = Running, bake_finally = False\<rparr>]"
    "pendingAtlasPromises s' ''olive'' = Some (length (bakes s))"
    "waiting s' = rev (map (\<lambda>r'. (length (bakes s), r', ''olive'')) [5, 6]) @ waiting s"
    by auto
  have l: "length (bakes s) = 2" using arg_cong [OF k, of length] by simp
  from atlas_bake_deduplicated [OF s, of "''tree''" 7] t
  have n: "bakes (request 7 ''tree'' s) = bakes s" by blast
  show ?thesis
    using s k st a o s' t n l w by (intro exI [of _ s] exI [of _ s']) simp
qed

end
